theory Spec2Isabelle
  imports Complex_Main "HOL-Library.AList" "HOL-Library.Log_Nat"
begin

section \<open>The data model of \<^verbatim>\<open>samples/data_processor.py\<close>\<close>

text \<open>
  Numbers. A record's \<^verbatim>\<open>value\<close> is a Python float, an IEEE-754 double. The model
  takes a finite double as the rational number it denotes, and a float operation as the
  exact operation followed by \<open>to_double\<close> (defined with the steps below), the rounding
  to the nearest double. Infinities and NaN are left out, and so is the exponent range
  (no overflow, no subnormal numbers): on a finite value above 100 no operation of
  \<^verbatim>\<open>_normalize_value\<close> leaves the normal range. The counters of \<^verbatim>\<open>_stats\<close> are
  Python ints, unbounded: \<open>int\<close>; the two rates of \<^verbatim>\<open>get_statistics\<close> are kept as
  exact quotients.

  Time. A \<^verbatim>\<open>datetime\<close> is a number of seconds on the clock's axis. Every
  reading of \<^verbatim>\<open>datetime.now()\<close> is an input of the model, given by the caller
  of the function that reads it.
\<close>

type_synonym datetime = rat

datatype Status = PENDING | PROCESSING | COMPLETED | FAILED

text \<open>
  The values the pipeline stores in \<^verbatim>\<open>metadata\<close>: \<^verbatim>\<open>True\<close>, a category or
  version string, a quality score, and the clock reading whose ISO-8601 text
  \<^verbatim>\<open>isoformat()\<close> renders (the rendering itself is not modelled).
\<close>

datatype meta_value = MBool bool | MStr string | MNum rat | MTime datetime

text \<open>
  \<^verbatim>\<open>DataRecord\<close>. The dict \<^verbatim>\<open>metadata\<close> is an association list in insertion
  order, written with \<open>AList.update\<close> as Python's item assignment does (an existing
  key keeps its place, a new key goes last). The field \<^verbatim>\<open>id\<close> is \<open>rec_id\<close> here,
  since \<open>id\<close> is HOL's identity function.
\<close>

record DataRecord =
  rec_id :: string
  timestamp :: datetime
  "value" :: rat
  metadata :: "(string \<times> meta_value) list"
  status :: Status
  tags :: "string list"

text \<open>The configuration that \<^verbatim>\<open>_load_config\<close> returns, and its defaults.\<close>

record rules =
  min_value :: rat
  max_value :: rat
  required_tags :: "string list"

record config =
  batch_size :: int
  timeout :: rat
  validation_rules :: rules
  processing_steps :: "string list"

definition default_config :: config where
  "default_config =
     \<lparr>batch_size = 100, timeout = 30,
      validation_rules =
        \<lparr>min_value = 0, max_value = 1000, required_tags = [''source'', ''type'']\<rparr>,
      processing_steps = [''validate'', ''normalize'', ''categorize'', ''enrich'']\<rparr>"

text \<open>
  Exceptions. \<^verbatim>\<open>_validate_record\<close> raises \<^verbatim>\<open>ValueError\<close> with one of two
  messages; a true division by zero raises \<^verbatim>\<open>ZeroDivisionError\<close>.
\<close>

datatype message = Out_of_range rat | Missing_required_tags "string set"

datatype exn = ValueError message | ZeroDivisionError

section \<open>The processing steps\<close>

text \<open>
  \<^verbatim>\<open>_validate_record\<close>: the range check first, then the tags check; the record
  is returned as it came.
\<close>

definition validate_record :: "config \<Rightarrow> DataRecord \<Rightarrow> exn + DataRecord" where
  "validate_record cfg record =
     (let rules = validation_rules cfg in
      if \<not> (min_value rules \<le> value record \<and> value record \<le> max_value rules)
      then Inl (ValueError (Out_of_range (value record)))
      else if \<not> list_all (\<lambda>tag. tag \<in> set (tags record)) (required_tags rules)
      then Inl (ValueError (Missing_required_tags
                  (set (required_tags rules) - set (tags record))))
      else Inr record)"

text \<open>
  Doubles. \<open>binary_exponent y\<close> is the \<open>e\<close> with \<open>2^e \<le> y < 2^(e+1)\<close>, for a positive
  \<open>y\<close>. \<open>to_double y\<close> is the double nearest to \<open>y\<close>: the multiple of
  \<open>2^(e-52)\<close> nearest to it (a significand of 53 bits), a tie going to the even multiple.
\<close>

definition round_half_even :: "rat \<Rightarrow> int" where
  "round_half_even y =
     (let n = \<lfloor>y\<rfloor>; d = y - of_int n in
      if d < 1 / 2 then n else if 1 / 2 < d then n + 1
      else if even n then n else n + 1)"

definition binary_exponent :: "rat \<Rightarrow> int" where
  "binary_exponent y =
     (let (p, q) = quotient_of y; t = bitlen p - bitlen q
      in if 2 powi t \<le> y then t else t - 1)"

definition to_double :: "rat \<Rightarrow> rat" where
  "to_double y =
     (if y = 0 then 0
      else let ulp = 2 powi (binary_exponent \<bar>y\<bar> - 52)
           in sgn y * (of_int (round_half_even (\<bar>y\<bar> / ulp)) * ulp))"

text \<open>The float operations \<^verbatim>\<open>+\<close>, \<^verbatim>\<open>-\<close>, \<^verbatim>\<open>*\<close> and \<^verbatim>\<open>/\<close>.\<close>

definition fadd :: "rat \<Rightarrow> rat \<Rightarrow> rat" where
  "fadd a b = to_double (a + b)"

definition fsub :: "rat \<Rightarrow> rat \<Rightarrow> rat" where
  "fsub a b = to_double (a - b)"

definition fmul :: "rat \<Rightarrow> rat \<Rightarrow> rat" where
  "fmul a b = to_double (a * b)"

definition fdiv :: "rat \<Rightarrow> rat \<Rightarrow> rat" where
  "fdiv a b = to_double (a / b)"

text \<open>
  Python's \<^verbatim>\<open>round(x, ndigits)\<close> on a float, with \<^verbatim>\<open>ndigits\<close> given: the
  decimal with \<^verbatim>\<open>ndigits\<close> places nearest to the exact value of \<open>x\<close>, a tie going
  to the even last digit, and then the double nearest to that decimal.
\<close>

definition py_round :: "rat \<Rightarrow> nat \<Rightarrow> rat" where
  "py_round x ndigits =
     to_double (of_int (round_half_even (x * 10 ^ ndigits)) / 10 ^ ndigits)"

text \<open>\<^verbatim>\<open>_normalize_value\<close>.\<close>

definition normalize_value :: "DataRecord \<Rightarrow> DataRecord" where
  "normalize_value record =
     (let record' =
        (if value record > 100
         then record\<lparr>value :=
                py_round (fmul 100 (fadd 1 (fdiv (fsub (value record) 100) 900))) 2\<rparr>
         else record)
      in record'\<lparr>metadata := AList.update ''normalized'' (MBool True) (metadata record')\<rparr>)"

text \<open>\<^verbatim>\<open>_categorize_value\<close>.\<close>

definition categorize_value :: "DataRecord \<Rightarrow> DataRecord" where
  "categorize_value record =
     (let category =
        (if value record < 30 then ''low''
         else if value record < 70 then ''medium''
         else ''high'')
      in record\<lparr>metadata := AList.update ''category'' (MStr category) (metadata record),
                tags := tags record @ [''category:'' @ category]\<rparr>)"

text \<open>
  \<^verbatim>\<open>_enrich_metadata\<close>, with the clock reading \<open>now\<close>. The dict literal passed to
  \<^verbatim>\<open>update\<close> is written key by key, in its order.
\<close>

definition enrich_metadata :: "datetime \<Rightarrow> DataRecord \<Rightarrow> DataRecord" where
  "enrich_metadata now record =
     record\<lparr>metadata :=
       AList.update ''quality_score''
         (MNum (min 100 (fmul (value record) (to_double (12 / 10))))) (
       AList.update ''pipeline_version'' (MStr ''2.1.0'') (
       AList.update ''processing_time'' (MTime now) (metadata record)))\<rparr>"

text \<open>
  The registry \<^verbatim>\<open>self.processors\<close>, in the order of the dict literal. A processor is
  called with the processor object's configuration, the clock and the record.
\<close>

type_synonym processor = "config \<Rightarrow> datetime \<Rightarrow> DataRecord \<Rightarrow> exn + DataRecord"

definition processors :: "(string \<times> processor) list" where
  "processors =
     [(''normalize'', \<lambda>cfg now record. Inr (normalize_value record)),
      (''categorize'', \<lambda>cfg now record. Inr (categorize_value record)),
      (''validate'', \<lambda>cfg now record. validate_record cfg record),
      (''enrich'', \<lambda>cfg now record. Inr (enrich_metadata now record))]"

definition is_step :: "string \<Rightarrow> bool" where
  "is_step step_name = (map_of processors step_name \<noteq> None)"

section \<open>Statistics\<close>

record stats =
  processed :: int
  failed :: int
  start_time :: datetime

text \<open>The state \<^verbatim>\<open>__init__\<close> gives \<^verbatim>\<open>_stats\<close>, the clock reading \<open>now\<close>.\<close>

definition init_stats :: "datetime \<Rightarrow> stats" where
  "init_stats now = \<lparr>processed = 0, failed = 0, start_time = now\<rparr>"

text \<open>Python's true division \<^verbatim>\<open>a / b\<close>.\<close>

definition truediv :: "rat \<Rightarrow> rat \<Rightarrow> exn + rat" where
  "truediv a b = (if b = 0 then Inl ZeroDivisionError else Inr (a / b))"

record statistics =
  stats_processed :: int
  stats_failed :: int
  stats_start_time :: datetime
  runtime_seconds :: rat
  records_per_second :: rat
  success_rate :: rat

text \<open>
  The two denominators of \<^verbatim>\<open>get_statistics\<close>, and the function itself, with the
  clock reading \<open>now\<close>.
\<close>

definition rate_denominator :: "datetime \<Rightarrow> stats \<Rightarrow> rat" where
  "rate_denominator now st = max (now - start_time st) 1"

definition success_denominator :: "stats \<Rightarrow> int" where
  "success_denominator st = max (processed st + failed st) 1"

definition get_statistics :: "datetime \<Rightarrow> stats \<Rightarrow> exn + statistics" where
  "get_statistics now st =
     (let runtime = now - start_time st in
      case truediv (of_int (processed st)) (rate_denominator now st) of
        Inl e \<Rightarrow> Inl e
      | Inr rps \<Rightarrow>
          (case truediv (of_int (processed st)) (of_int (success_denominator st)) of
             Inl e \<Rightarrow> Inl e
           | Inr rate \<Rightarrow>
               Inr \<lparr>stats_processed = processed st, stats_failed = failed st,
                    stats_start_time = start_time st, runtime_seconds = runtime,
                    records_per_second = rps, success_rate = rate\<rparr>))"

section \<open>One record through the pipeline\<close>

text \<open>
  \<^verbatim>\<open>_process_single_record\<close> is a coroutine: it runs until it awaits
  \<^verbatim>\<open>asyncio.sleep(0.01)\<close>, which it does once before each step whose name is in
  the registry, and goes on when the event loop resumes it. A task is the coroutine
  between two runs:
  \<^item> \<open>Created record\<close>: \<^verbatim>\<open>create_task\<close> has made it; no line of it has run;
  \<^item> \<open>Sleeping step_name rest record\<close>: it is suspended in the sleep before the
    step \<open>step_name\<close> (a name of the registry); \<open>rest\<close> is what the
    \<^verbatim>\<open>for\<close> loop has still to iterate over after it;
  \<^item> \<open>Returned record\<close>: it has returned the record;
  \<^item> \<open>Raised e record\<close>: a step raised \<open>e\<close>, which the \<^verbatim>\<open>except\<close> clause
    logged and raised again; \<open>record\<close> is the record object as the failing call
    left it.
\<close>

datatype task =
    Created DataRecord
  | Sleeping string "string list" DataRecord
  | Returned DataRecord
  | Raised exn DataRecord

text \<open>
  The \<^verbatim>\<open>for\<close> loop from the names still to iterate over, up to the next
  suspension or to the \<^verbatim>\<open>return\<close>. A name that is not in the registry fails
  the test \<^verbatim>\<open>if step_name in self.processors\<close> and the loop goes to the next.
\<close>

fun run_loop :: "string list \<Rightarrow> DataRecord \<Rightarrow> task" where
  "run_loop [] record = Returned (record\<lparr>status := COMPLETED\<rparr>)"
| "run_loop (step_name # rest) record =
     (if is_step step_name then Sleeping step_name rest record
      else run_loop rest record)"

text \<open>
  One run of a task, from where it stands to its next suspension or its end, with the
  clock reading \<open>now\<close> of that run. A finished task does not run again.
\<close>

fun step_task :: "config \<Rightarrow> datetime \<Rightarrow> task \<Rightarrow> task" where
  "step_task cfg now (Created record) =
     run_loop (processing_steps cfg) (record\<lparr>status := PROCESSING\<rparr>)"
| "step_task cfg now (Sleeping step_name rest record) =
     (case map_of processors step_name of
        None \<Rightarrow> run_loop rest record
      | Some processor \<Rightarrow>
          (case processor cfg now record of
             Inl e \<Rightarrow> Raised e record
           | Inr record' \<Rightarrow> run_loop rest record'))"
| "step_task cfg now (Returned record) = Returned record"
| "step_task cfg now (Raised e record) = Raised e record"

fun finished :: "task \<Rightarrow> bool" where
  "finished (Returned record) = True"
| "finished (Raised e record) = True"
| "finished t = False"

fun is_raised :: "task \<Rightarrow> bool" where
  "is_raised (Raised e record) = True"
| "is_raised t = False"

fun task_record :: "task \<Rightarrow> DataRecord" where
  "task_record (Created record) = record"
| "task_record (Sleeping step_name rest record) = record"
| "task_record (Returned record) = record"
| "task_record (Raised e record) = record"

section \<open>A batch\<close>

text \<open>
  The event loop interleaves the tasks of a batch. What it does until the gathered
  tasks are all done, or until the timeout of \<^verbatim>\<open>asyncio.wait_for\<close> elapses, is
  an input of the model: a schedule, the list of the runs it makes in their order, each
  the index of the task it runs and the clock reading of that run. Any interleaving and
  any timing is a schedule. The records of a batch are taken to be distinct objects, so
  that a task changes its own record only.
\<close>

type_synonym schedule = "(nat \<times> datetime) list"

fun run_sched :: "config \<Rightarrow> schedule \<Rightarrow> task list \<Rightarrow> task list" where
  "run_sched cfg [] tasks = tasks"
| "run_sched cfg ((i, now) # sched) tasks =
     run_sched cfg sched
       (if i < length tasks then tasks[i := step_task cfg now (tasks ! i)] else tasks)"

text \<open>
  The loop over \<^verbatim>\<open>enumerate(results)\<close> of \<^verbatim>\<open>process_batch\<close>, which runs when
  \<^verbatim>\<open>wait_for\<close> has returned the gathered results: the list
  \<^verbatim>\<open>processed_records\<close>, the counters, and the records of the batch already
  visited, as the loop leaves them.
\<close>

fun handle_results ::
  "task list \<Rightarrow> DataRecord list \<Rightarrow> stats \<Rightarrow> DataRecord list \<Rightarrow>
   DataRecord list \<times> stats \<times> DataRecord list" where
  "handle_results [] processed_records st records = (processed_records, st, records)"
| "handle_results (Raised e record # results) processed_records st records =
     handle_results results processed_records (st\<lparr>failed := failed st + 1\<rparr>)
       (records @ [record\<lparr>status := FAILED\<rparr>])"
| "handle_results (t # results) processed_records st records =
     handle_results results (processed_records @ [task_record t])
       (st\<lparr>processed := processed st + 1\<rparr>) (records @ [task_record t])"

text \<open>
  \<^verbatim>\<open>process_batch\<close> under a schedule: what it returns, the counters after the
  call, and the records of the batch after the call. When the schedule ends with a task
  still unfinished, the timeout has elapsed first: \<^verbatim>\<open>wait_for\<close> cancels the
  tasks and raises \<^verbatim>\<open>TimeoutError\<close>, and the \<^verbatim>\<open>except\<close> clause returns
  \<^verbatim>\<open>[]\<close>.
\<close>

definition gathered :: "config \<Rightarrow> schedule \<Rightarrow> DataRecord list \<Rightarrow> task list" where
  "gathered cfg sched records = run_sched cfg sched (map Created records)"

definition timed_out :: "config \<Rightarrow> schedule \<Rightarrow> DataRecord list \<Rightarrow> bool" where
  "timed_out cfg sched records = (\<not> list_all finished (gathered cfg sched records))"

definition process_batch ::
  "config \<Rightarrow> schedule \<Rightarrow> stats \<Rightarrow> DataRecord list \<Rightarrow>
   DataRecord list \<times> stats \<times> DataRecord list" where
  "process_batch cfg sched st records =
     (let results = gathered cfg sched records in
      if list_all finished results then handle_results results [] st []
      else ([], st, map task_record results))"

definition returned_records ::
  "DataRecord list \<times> stats \<times> DataRecord list \<Rightarrow> DataRecord list" where
  "returned_records out = fst out"

definition stats_after :: "DataRecord list \<times> stats \<times> DataRecord list \<Rightarrow> stats" where
  "stats_after out = fst (snd out)"


section \<open>Notions the properties are stated with\<close>

text \<open>
  A record satisfies the validation rules of a configuration: its value is in
  \<open>[min_value, max_value]\<close> and its tags contain every required tag.
\<close>

definition satisfies_rules :: "config \<Rightarrow> DataRecord \<Rightarrow> bool" where
  "satisfies_rules cfg record =
     (min_value (validation_rules cfg) \<le> value record \<and>
      value record \<le> max_value (validation_rules cfg) \<and>
      set (required_tags (validation_rules cfg)) \<subseteq> set (tags record))"

text \<open>No \<^verbatim>\<open>validate\<close> comes after a \<^verbatim>\<open>normalize\<close> in a list of step names.\<close>

fun no_validate_after_normalize :: "string list \<Rightarrow> bool" where
  "no_validate_after_normalize [] = True"
| "no_validate_after_normalize (step_name # rest) =
     (if step_name = ''normalize'' then ''validate'' \<notin> set rest
      else no_validate_after_normalize rest)"

text \<open>
  A record that no remaining step can fail: no \<^verbatim>\<open>validate\<close> is left, or the record
  satisfies the rules and will still do so at every \<^verbatim>\<open>validate\<close> to come.
\<close>

definition safe_state :: "config \<Rightarrow> string list \<Rightarrow> DataRecord \<Rightarrow> bool" where
  "safe_state cfg rest record =
     (''validate'' \<notin> set rest \<or>
      (satisfies_rules cfg record \<and>
       (min_value (validation_rules cfg) \<le> 100 \<or> no_validate_after_normalize rest)))"

fun safe_task :: "config \<Rightarrow> task \<Rightarrow> bool" where
  "safe_task cfg (Created record) = safe_state cfg (processing_steps cfg) record"
| "safe_task cfg (Sleeping step_name rest record) = safe_state cfg (step_name # rest) record"
| "safe_task cfg (Returned record) = True"
| "safe_task cfg (Raised e record) = False"


text \<open>What the loop over the results makes of the record of a task.\<close>

definition final_record :: "task \<Rightarrow> DataRecord" where
  "final_record t =
     (if is_raised t then (task_record t)\<lparr>status := FAILED\<rparr> else task_record t)"

text \<open>A task with the names outside the registry taken out of what it has yet to do.\<close>

fun forget_unknown :: "task \<Rightarrow> task" where
  "forget_unknown (Sleeping step_name rest record) =
     Sleeping step_name (filter is_step rest) record"
| "forget_unknown t = t"

definition known_steps_only :: "config \<Rightarrow> config" where
  "known_steps_only cfg = cfg\<lparr>processing_steps := filter is_step (processing_steps cfg)\<rparr>"

text \<open>The category of a value, in the words of the specification.\<close>

definition spec_category :: "rat \<Rightarrow> string \<Rightarrow> bool" where
  "spec_category v c =
     ((c = ''low'' \<and> v < 30) \<or> (c = ''medium'' \<and> 30 \<le> v \<and> v < 70) \<or>
      (c = ''high'' \<and> 70 \<le> v))"

text \<open>
  The rescaling \<open>100 * (1 + (v - 100) / 900)\<close> of the specification in float arithmetic,
  and its rounding to two places.
\<close>

definition rescale :: "rat \<Rightarrow> rat" where
  "rescale v = fmul 100 (fadd 1 (fdiv (fsub v 100) 900))"

definition rescaled :: "rat \<Rightarrow> rat" where
  "rescaled v = py_round (rescale v) 2"

text \<open>A rational number that is a double.\<close>

definition is_double :: "rat \<Rightarrow> bool" where
  "is_double y = (to_double y = y)"

text \<open>
  The doubles \<open>100.04499999999999\<close> and \<open>100.045\<close>: the last value that the
  normalize step takes to \<open>100.0\<close>, and the double after it.
\<close>

definition below_threshold :: rat where
  "below_threshold = 3520020505627197 / 35184372088832"

definition threshold :: rat where
  "threshold = 7040041011254395 / 70368744177664"

text \<open>
  A bound on the runs a task still needs, and the schedule of \<open>k\<close> rounds in which the
  event loop runs each of \<open>n\<close> tasks once, in their order.
\<close>

fun runs_left :: "config \<Rightarrow> task \<Rightarrow> nat" where
  "runs_left cfg (Created record) = Suc (length (processing_steps cfg))"
| "runs_left cfg (Sleeping step_name rest record) = Suc (length rest)"
| "runs_left cfg (Returned record) = 0"
| "runs_left cfg (Raised e record) = 0"

definition round_robin :: "nat \<Rightarrow> datetime \<Rightarrow> schedule" where
  "round_robin n now = map (\<lambda>i. (i, now)) [0..<n]"

definition rounds :: "nat \<Rightarrow> nat \<Rightarrow> datetime \<Rightarrow> schedule" where
  "rounds k n now = concat (replicate k (round_robin n now))"

section \<open>Sample inputs\<close>

definition rec1 :: DataRecord where
  "rec1 = \<lparr>rec_id = ''record_0001'', timestamp = 0, value = 150,
     metadata = [(''source_id'', MStr ''sensor_1'')], status = PENDING,
     tags = [''source'', ''type'']\<rparr>"

definition rec_just_above_100 :: DataRecord where
  "rec_just_above_100 = \<lparr>rec_id = ''record_0002'', timestamp = 0, value = 3201 / 32,
     metadata = [], status = PENDING, tags = [''source'', ''type'']\<rparr>"

definition rec2 :: DataRecord where
  "rec2 = \<lparr>rec_id = ''record_0003'', timestamp = 0, value = 42,
     metadata = [], status = PENDING, tags = [''type'', ''source'', ''lab'']\<rparr>"

definition rec_too_large :: DataRecord where
  "rec_too_large = \<lparr>rec_id = ''record_0004'', timestamp = 0, value = 1500,
     metadata = [], status = PENDING, tags = [''source'', ''type'']\<rparr>"

definition sched_all :: schedule where
  "sched_all =
     [(0, 1), (1, 1), (2, 1), (0, 2), (1, 2), (2, 2), (0, 3), (2, 3), (0, 4), (2, 4),
      (0, 5), (2, 5)]"

definition sched_short :: schedule where
  "sched_short = [(0, 1), (1, 1), (0, 2), (1, 2)]"

definition sched_cut :: schedule where
  "sched_cut = [(0, 1), (1, 1), (0, 2), (1, 2), (0, 3), (0, 4), (0, 5), (1, 5)]"

definition config_strict :: config where
  "config_strict =
     \<lparr>batch_size = 100, timeout = 30,
      validation_rules =
        \<lparr>min_value = 150, max_value = 1000, required_tags = [''source'', ''type'']\<rparr>,
      processing_steps = [''normalize'', ''validate'']\<rparr>"

definition rec3 :: DataRecord where
  "rec3 = \<lparr>rec_id = ''record_0005'', timestamp = 0, value = 1000,
     metadata = [], status = PENDING, tags = [''source'', ''type'']\<rparr>"

definition sched_rounds :: schedule where
  "sched_rounds =
     [(0, 1), (1, 1), (2, 1), (0, 2), (1, 2), (2, 2), (0, 3), (1, 3), (2, 3),
      (0, 4), (1, 4), (2, 4), (0, 5), (1, 5), (2, 5)]"

definition sched_one :: schedule where
  "sched_one = [(0, 1), (0, 2), (0, 3)]"

definition config_typo :: config where
  "config_typo = default_config\<lparr>processing_steps :=
     [''validate'', ''normalise'', ''categorize'', ''Enrich'', ''enrich'']\<rparr>"

section \<open>The steps\<close>

lemma is_step_iff:
  "is_step s \<longleftrightarrow> s \<in> {''validate'', ''normalize'', ''categorize'', ''enrich''}"
  by (auto simp: is_step_def processors_def)

text \<open>
  C4. The validate step raises exactly when the value of the record is outside
  \<open>[min_value, max_value]\<close> or its tags do not contain every required tag; when the
  value is in the range and every required tag is present, it does not raise and it
  returns the record unchanged.
\<close>

theorem validate_raises_iff:
  "((\<exists>e. validate_record cfg record = Inl e) \<longleftrightarrow>
      (value record < min_value (validation_rules cfg) \<or>
       max_value (validation_rules cfg) < value record \<or>
       \<not> set (required_tags (validation_rules cfg)) \<subseteq> set (tags record))) \<and>
   (min_value (validation_rules cfg) \<le> value record \<and>
    value record \<le> max_value (validation_rules cfg) \<and>
    set (required_tags (validation_rules cfg)) \<subseteq> set (tags record)
    \<longrightarrow> validate_record cfg record = Inr record)"
  by (auto simp: validate_record_def Let_def list_all_iff)

theorem validate_raises_iff_witness:
  "validate_record default_config rec1 = Inr rec1 \<and>
   (\<exists>e. validate_record default_config (rec1\<lparr>value := 1001\<rparr>) = Inl e) \<and>
   (\<exists>e. validate_record default_config (rec1\<lparr>tags := [''source'']\<rparr>) = Inl e)"
  using validate_raises_iff [of default_config rec1]
    validate_raises_iff [of default_config "rec1\<lparr>value := 1001\<rparr>"]
    validate_raises_iff [of default_config "rec1\<lparr>tags := [''source'']\<rparr>"]
  by (simp add: default_config_def rec1_def)

subsection \<open>Doubles and rounding\<close>

lemma binary_exponent_bounds:
  assumes "0 < y"
  shows "2 powi binary_exponent y \<le> y \<and> y < 2 powi (binary_exponent y + 1)"
proof -
  obtain p q where pq: "quotient_of y = (p, q)" by (cases "quotient_of y")
  have q: "0 < q" using pq by (rule quotient_of_denom_pos)
  have y: "y = of_int p / of_int q" using pq by (rule quotient_of_div)
  have p: "0 < p" using assms q y by (simp add: zero_less_divide_iff)
  define bp where "bp = bitlen p"
  define bq where "bq = bitlen q"
  have bp1: "1 \<le> bp" and bq1: "1 \<le> bq"
    using p q bitlen_eq_zero_iff [of p] bitlen_eq_zero_iff [of q] bitlen_nonneg [of p]
      bitlen_nonneg [of q] unfolding bp_def bq_def by linarith+
  have "2 ^ nat (bp - 1) \<le> p" "p < 2 ^ nat bp" "2 ^ nat (bq - 1) \<le> q" "q < 2 ^ nat bq"
    using bitlen_bounds [OF p] bitlen_bounds [OF q] by (simp_all add: bp_def bq_def)
  then have P: "(2::rat) ^ nat (bp - 1) \<le> of_int p" "of_int p < (2::rat) ^ nat bp"
    and Q: "(2::rat) ^ nat (bq - 1) \<le> of_int q" "of_int q < (2::rat) ^ nat bq"
    by (metis of_int_le_iff of_int_less_iff of_int_numeral of_int_power)+
  have P': "(2::rat) powi (bp - 1) \<le> of_int p" "of_int p < (2::rat) powi bp"
    and Q': "(2::rat) powi (bq - 1) \<le> of_int q" "of_int q < (2::rat) powi bq"
    using P Q bp1 bq1 by (simp_all add: power_int_nonneg_exp)
  have qpos: "(0::rat) < of_int q" using q by simp
  have up: "y < 2 powi (bp - bq + 1)"
  proof -
    have "y < 2 powi bp / of_int q" unfolding y using P'(2) qpos by (simp add: divide_strict_right_mono)
    also have "\<dots> \<le> 2 powi bp / 2 powi (bq - 1)"
      using Q'(1) qpos by (intro divide_left_mono) (auto simp: zero_less_power_int)
    also have "\<dots> = 2 powi (bp - bq + 1)"
      by (simp add: power_int_diff [symmetric] algebra_simps)
    finally show ?thesis .
  qed
  have low: "2 powi (bp - bq - 1) \<le> y"
  proof -
    have "(2::rat) powi (bp - bq - 1) = 2 powi (bp - 1) / 2 powi bq"
      by (simp add: power_int_diff [symmetric] algebra_simps)
    also have "\<dots> \<le> 2 powi (bp - 1) / of_int q"
      using Q'(2) qpos by (intro divide_left_mono) (auto simp: zero_less_power_int less_imp_le)
    also have "\<dots> \<le> y" unfolding y using P'(1) qpos by (simp add: divide_right_mono)
    finally show ?thesis .
  qed
  have be: "binary_exponent y = (if 2 powi (bp - bq) \<le> y then bp - bq else bp - bq - 1)"
    by (simp add: binary_exponent_def pq bp_def bq_def)
  show ?thesis
  proof (cases "2 powi (bp - bq) \<le> y")
    case True
    then show ?thesis using up be by simp
  next
    case False
    then show ?thesis using low be by simp
  qed
qed

lemma round_half_even_unfold:
  "round_half_even y =
     (if y - of_int \<lfloor>y\<rfloor> < 1 / 2 then \<lfloor>y\<rfloor>
      else if 1 / 2 < y - of_int \<lfloor>y\<rfloor> then \<lfloor>y\<rfloor> + 1
      else if even \<lfloor>y\<rfloor> then \<lfloor>y\<rfloor> else \<lfloor>y\<rfloor> + 1)"
  by (simp add: round_half_even_def Let_def)

lemma round_half_even_ge: "of_int n \<le> y \<Longrightarrow> n \<le> round_half_even y"
proof -
  assume "of_int n \<le> y"
  then have "n \<le> \<lfloor>y\<rfloor>" by (simp add: le_floor_iff)
  then show ?thesis unfolding round_half_even_unfold by (simp split: if_split)
qed

lemma round_half_even_le: "y \<le> of_int n \<Longrightarrow> round_half_even y \<le> n"
proof (cases "y = of_int n")
  case True
  then show ?thesis unfolding round_half_even_unfold by simp
next
  case False
  assume "y \<le> of_int n"
  with False have "y < of_int n" by simp
  then have "\<lfloor>y\<rfloor> < n" by (simp add: floor_less_iff)
  then show ?thesis unfolding round_half_even_unfold by (simp split: if_split)
qed

lemma round_half_even_near:
  "y - 1 / 2 \<le> of_int (round_half_even y) \<and> of_int (round_half_even y) \<le> y + 1 / 2"
proof -
  define n where "n = \<lfloor>y\<rfloor>"
  have 1: "of_int n \<le> y" and 2: "y < of_int n + 1"
    unfolding n_def by linarith+
  consider (lo) "y - of_int n < 1 / 2" | (hi) "1 / 2 < y - of_int n" | (tie) "y - of_int n = 1 / 2"
    by linarith
  then show ?thesis
  proof cases
    case lo
    then have "round_half_even y = n" unfolding round_half_even_unfold n_def by simp
    then show ?thesis using lo 1 by simp
  next
    case hi
    then have "round_half_even y = n + 1" unfolding round_half_even_unfold n_def by simp
    then show ?thesis using hi 2 by simp
  next
    case tie
    then have "round_half_even y = n \<or> round_half_even y = n + 1"
      unfolding round_half_even_unfold n_def by simp
    then show ?thesis using tie by auto
  qed
qed

lemma round_half_even_tie:
  "\<bar>of_int (round_half_even y) - y\<bar> = 1 / 2 \<Longrightarrow> even (round_half_even y)"
proof -
  assume a: "\<bar>of_int (round_half_even y) - y\<bar> = 1 / 2"
  define n where "n = \<lfloor>y\<rfloor>"
  have 1: "of_int n \<le> y" and 2: "y < of_int n + 1"
    unfolding n_def by linarith+
  consider (lo) "y - of_int n < 1 / 2" | (hi) "1 / 2 < y - of_int n" | (tie) "y - of_int n = 1 / 2"
    by linarith
  then show ?thesis
  proof cases
    case lo
    then have "round_half_even y = n" unfolding round_half_even_unfold n_def by simp
    then show ?thesis using lo 1 a by simp
  next
    case hi
    then have "round_half_even y = n + 1" unfolding round_half_even_unfold n_def by simp
    then show ?thesis using hi 2 a by simp
  next
    case tie
    then show ?thesis unfolding round_half_even_unfold n_def by auto
  qed
qed

lemma round_half_even_mono: "x \<le> y \<Longrightarrow> round_half_even x \<le> round_half_even y"
proof (cases "\<lfloor>x\<rfloor> = \<lfloor>y\<rfloor>")
  case True
  assume "x \<le> y"
  then have "x - of_int \<lfloor>x\<rfloor> \<le> y - of_int \<lfloor>y\<rfloor>" using True by simp
  then show ?thesis unfolding round_half_even_unfold True by (auto split: if_splits)
next
  case False
  assume xy: "x \<le> y"
  then have "\<lfloor>x\<rfloor> \<le> \<lfloor>y\<rfloor>" by (rule floor_mono)
  with False have "\<lfloor>x\<rfloor> + 1 \<le> \<lfloor>y\<rfloor>" by simp
  moreover have "round_half_even x \<le> \<lfloor>x\<rfloor> + 1"
    unfolding round_half_even_unfold by (simp split: if_split)
  moreover have "\<lfloor>y\<rfloor> \<le> round_half_even y"
    unfolding round_half_even_unfold by (simp split: if_split)
  ultimately show ?thesis by linarith
qed

lemma round_half_even_of_int: "round_half_even (of_int n) = n"
  by (simp add: round_half_even_unfold)

lemma round_half_even_gt_iff:
  "n < round_half_even y \<longleftrightarrow> (of_int n + 1 / 2 < y \<or> (of_int n + 1 / 2 = y \<and> odd n))"
proof -
  define m where "m = \<lfloor>y\<rfloor>"
  have 1: "of_int m \<le> y" and 2: "y < of_int m + 1"
    unfolding m_def by linarith+
  consider (below) "m < n" | (eq) "m = n" | (above) "n < m" by linarith
  then show ?thesis
  proof cases
    case below
    then have "m + 1 \<le> n" by simp
    then have "(of_int m :: rat) + 1 \<le> of_int n" by linarith
    then have "y < of_int n" using 2 by linarith
    moreover have "round_half_even y \<le> n" using \<open>y < of_int n\<close> by (simp add: round_half_even_le)
    ultimately show ?thesis by auto
  next
    case eq
    have r: "round_half_even y =
      (if y - of_int n < 1 / 2 then n else if 1 / 2 < y - of_int n then n + 1
       else if even n then n else n + 1)"
      unfolding round_half_even_unfold using eq m_def by simp
    show ?thesis unfolding r by (auto split: if_splits)
  next
    case above
    then have "n + 1 \<le> m" by simp
    then have a: "(of_int n :: rat) + 1 \<le> of_int m" by linarith
    then have "of_int (n + 1) \<le> y" using 1 by simp
    then have "n + 1 \<le> round_half_even y" by (rule round_half_even_ge)
    moreover have "of_int n + 1 / 2 < y" using a 1 by linarith
    ultimately show ?thesis by auto
  qed
qed

lemma to_double_pos:
  "0 < y \<Longrightarrow> to_double y =
     of_int (round_half_even (y / 2 powi (binary_exponent y - 52))) * 2 powi (binary_exponent y - 52)"
  by (simp add: to_double_def Let_def)

lemma ulp_pos: "(0::rat) < 2 powi k"
  by (simp add: zero_less_power_int)

lemma pow2_split: "(2::rat) powi e = 2 ^ 52 * 2 powi (e - 52)"
proof -
  have "e = 52 + (e - 52)" by linarith
  then have "(2::rat) powi e = 2 powi (52 + (e - 52))" by (simp only:)
  also have "\<dots> = 2 powi 52 * 2 powi (e - 52)" by (subst power_int_add) simp_all
  finally show ?thesis by simp
qed

lemma pow2_split1: "(2::rat) powi (e + 1) = 2 ^ 53 * 2 powi (e - 52)"
proof -
  have "e + 1 = 53 + (e - 52)" by linarith
  then have "(2::rat) powi (e + 1) = 2 powi (53 + (e - 52))" by (simp only:)
  also have "\<dots> = 2 powi 53 * 2 powi (e - 52)" by (subst power_int_add) simp_all
  finally show ?thesis by simp
qed

lemma to_double_binade:
  assumes "0 < y"
  shows "2 powi binary_exponent y \<le> to_double y \<and> to_double y \<le> 2 powi (binary_exponent y + 1)"
proof -
  define e where "e = binary_exponent y"
  define u where "u = (2::rat) powi (e - 52)"
  have u: "0 < u" unfolding u_def by (rule ulp_pos)
  have b: "2 powi e \<le> y" "y < 2 powi (e + 1)"
    using binary_exponent_bounds [OF assms] by (simp_all add: e_def)
  have "of_int (2 ^ 52) \<le> y / u"
    using b(1) u by (simp add: pow2_split [of e] u_def [symmetric] pos_le_divide_eq)
  then have lo: "2 ^ 52 \<le> round_half_even (y / u)" by (rule round_half_even_ge)
  have "y / u \<le> of_int (2 ^ 53)"
    using b(2) u by (simp add: pow2_split1 [of e] u_def [symmetric] pos_divide_le_eq)
  then have hi: "round_half_even (y / u) \<le> 2 ^ 53" by (rule round_half_even_le)
  have lo': "(2::rat) ^ 52 \<le> of_int (round_half_even (y / u))"
    using lo by (metis of_int_le_iff of_int_numeral of_int_power)
  have hi': "of_int (round_half_even (y / u)) \<le> (2::rat) ^ 53"
    using hi by (metis of_int_le_iff of_int_numeral of_int_power)
  have t: "to_double y = of_int (round_half_even (y / u)) * u"
    using assms by (simp add: to_double_pos e_def u_def)
  have "2 powi e = 2 ^ 52 * u" unfolding u_def by (rule pow2_split)
  also have "\<dots> \<le> of_int (round_half_even (y / u)) * u"
    using lo' u by (intro mult_right_mono) auto
  finally have A: "2 powi e \<le> to_double y" unfolding t .
  have "of_int (round_half_even (y / u)) * u \<le> 2 ^ 53 * u"
    using hi' u by (intro mult_right_mono) auto
  also have "\<dots> = 2 powi (e + 1)" unfolding u_def by (rule pow2_split1 [symmetric])
  finally have B: "to_double y \<le> 2 powi (e + 1)" unfolding t .
  show ?thesis using A B by (simp add: e_def)
qed

lemma to_double_positive: "0 < y \<Longrightarrow> 0 < to_double y"
  using to_double_binade [of y] ulp_pos [of "binary_exponent y"] by linarith

lemma binary_exponent_mono:
  assumes "0 < x" and "x \<le> y"
  shows "binary_exponent x \<le> binary_exponent y"
proof (rule ccontr)
  assume "\<not> binary_exponent x \<le> binary_exponent y"
  then have "binary_exponent y + 1 \<le> binary_exponent x" by simp
  then have "(2::rat) powi (binary_exponent y + 1) \<le> 2 powi binary_exponent x"
    by (intro power_int_increasing) auto
  moreover have "y < 2 powi (binary_exponent y + 1)"
    using binary_exponent_bounds [of y] assms by simp
  moreover have "2 powi binary_exponent x \<le> x"
    using binary_exponent_bounds [of x] assms by simp
  ultimately show False using assms by linarith
qed

lemma to_double_mono:
  assumes "0 < x" and "x \<le> y"
  shows "to_double x \<le> to_double y"
proof (cases "binary_exponent x = binary_exponent y")
  case True
  define u where "u = (2::rat) powi (binary_exponent y - 52)"
  have u: "0 < u" unfolding u_def by (rule ulp_pos)
  have y: "0 < y" using assms by simp
  have "x / u \<le> y / u" using assms u by (simp add: divide_right_mono)
  then have "round_half_even (x / u) \<le> round_half_even (y / u)" by (rule round_half_even_mono)
  then have "(of_int (round_half_even (x / u)) :: rat) \<le> of_int (round_half_even (y / u))"
    by simp
  then have "of_int (round_half_even (x / u)) * u \<le> of_int (round_half_even (y / u)) * u"
    using u by (intro mult_right_mono) auto
  then show ?thesis using assms(1) y True by (simp add: to_double_pos u_def)
next
  case False
  have y: "0 < y" using assms by simp
  have "binary_exponent x \<le> binary_exponent y" using assms by (rule binary_exponent_mono)
  with False have "binary_exponent x + 1 \<le> binary_exponent y" by simp
  then have "(2::rat) powi (binary_exponent x + 1) \<le> 2 powi binary_exponent y"
    by (intro power_int_increasing) auto
  moreover have "to_double x \<le> 2 powi (binary_exponent x + 1)"
    using to_double_binade [OF assms(1)] by simp
  moreover have "2 powi binary_exponent y \<le> to_double y"
    using to_double_binade [OF y] by simp
  ultimately show ?thesis by linarith
qed

lemma to_double_error:
  assumes "0 < y"
  shows "\<bar>to_double y - y\<bar> \<le> y / 2 ^ 53"
proof -
  define e where "e = binary_exponent y"
  define u where "u = (2::rat) powi (e - 52)"
  have u: "0 < u" unfolding u_def by (rule ulp_pos)
  have t: "to_double y = of_int (round_half_even (y / u)) * u"
    using assms by (simp add: to_double_pos e_def u_def)
  have "2 powi e \<le> y" using binary_exponent_bounds [OF assms] by (simp add: e_def)
  moreover have "2 ^ 52 * u = 2 powi e" unfolding u_def by (rule pow2_split [symmetric])
  ultimately have uy: "2 ^ 52 * u \<le> y" by (simp only:)
  have n: "\<bar>of_int (round_half_even (y / u)) - y / u\<bar> \<le> 1 / 2"
    using round_half_even_near [of "y / u"] by linarith
  have "to_double y - y = (of_int (round_half_even (y / u)) - y / u) * u"
    unfolding t using u by (simp add: algebra_simps)
  then have "\<bar>to_double y - y\<bar> = \<bar>of_int (round_half_even (y / u)) - y / u\<bar> * u"
    using u by (simp add: abs_mult)
  also have "\<dots> \<le> 1 / 2 * u" using n u by (intro mult_right_mono) auto
  also have "\<dots> \<le> y / 2 ^ 53" using uy by simp
  finally show ?thesis .
qed

lemma to_double_consts:
  "to_double 1 = 1" "to_double 2 = 2" "to_double 100 = 100" "to_double 200 = 200"
  "to_double 900 = 900"
  by code_simp+

lemma to_double_bounds:
  assumes "0 < y"
  shows "y * (1 - 1 / 2 ^ 53) \<le> to_double y" and "to_double y \<le> y * (1 + 1 / 2 ^ 53)"
proof -
  have e: "\<bar>to_double y - y\<bar> \<le> y / 2 ^ 53" using assms by (rule to_double_error)
  have "y * (1 - 1 / 2 ^ 53) = y - y / 2 ^ 53" by (simp add: algebra_simps)
  then show "y * (1 - 1 / 2 ^ 53) \<le> to_double y" using e by linarith
  have "y * (1 + 1 / 2 ^ 53) = y + y / 2 ^ 53" by (simp add: algebra_simps)
  then show "to_double y \<le> y * (1 + 1 / 2 ^ 53)" using e by linarith
qed

lemma to_double_ge: "0 < c \<Longrightarrow> to_double c = c \<Longrightarrow> c \<le> y \<Longrightarrow> c \<le> to_double y"
  using to_double_mono [of c y] by simp

lemma to_double_le: "0 < y \<Longrightarrow> to_double c = c \<Longrightarrow> y \<le> c \<Longrightarrow> to_double y \<le> c"
  using to_double_mono [of y c] by simp

lemma stage_positive:
  assumes "100 < v"
  shows "0 < fsub v 100" and "0 < fdiv (fsub v 100) 900" and "1 \<le> fadd 1 (fdiv (fsub v 100) 900)"
    and "100 \<le> rescale v"
proof -
  show d: "0 < fsub v 100" unfolding fsub_def using assms by (intro to_double_positive) simp
  then show q: "0 < fdiv (fsub v 100) 900" unfolding fdiv_def by (intro to_double_positive) simp
  then show s: "1 \<le> fadd 1 (fdiv (fsub v 100) 900)"
    unfolding fadd_def by (intro to_double_ge) (simp_all add: to_double_consts)
  then show "100 \<le> rescale v"
    unfolding rescale_def fmul_def by (intro to_double_ge) (simp_all add: to_double_consts)
qed

lemma rescale_mono:
  assumes "100 < v" and "v \<le> w"
  shows "rescale v \<le> rescale w"
proof -
  have w: "100 < w" using assms by simp
  have "fsub v 100 \<le> fsub w 100"
    unfolding fsub_def using assms by (intro to_double_mono) simp_all
  then have "fdiv (fsub v 100) 900 \<le> fdiv (fsub w 100) 900"
    unfolding fdiv_def using stage_positive(1) [OF assms(1)]
    by (intro to_double_mono) (simp_all add: divide_right_mono)
  then have "fadd 1 (fdiv (fsub v 100) 900) \<le> fadd 1 (fdiv (fsub w 100) 900)"
    unfolding fadd_def using stage_positive(2) [OF assms(1)]
    by (intro to_double_mono) simp_all
  then show ?thesis
    unfolding rescale_def fmul_def using stage_positive(3) [OF assms(1)]
    by (intro to_double_mono) simp_all
qed

lemma rescale_le_200:
  assumes "100 < v" and "v \<le> 1000"
  shows "rescale v \<le> 200"
proof -
  have "fsub v 100 \<le> 900"
    unfolding fsub_def using assms by (intro to_double_le) (simp_all add: to_double_consts)
  then have "fdiv (fsub v 100) 900 \<le> 1"
    unfolding fdiv_def using stage_positive(1) [OF assms(1)]
    by (intro to_double_le) (simp_all add: to_double_consts)
  then have "fadd 1 (fdiv (fsub v 100) 900) \<le> 2"
    unfolding fadd_def using stage_positive(2) [OF assms(1)]
    by (intro to_double_le) (simp_all add: to_double_consts)
  then show ?thesis
    unfolding rescale_def fmul_def using stage_positive(3) [OF assms(1)]
    by (intro to_double_le) (simp_all add: to_double_consts)
qed

lemma py_round_mono:
  assumes "1 \<le> x" and "x \<le> y"
  shows "py_round x 2 \<le> py_round y 2"
proof -
  have "round_half_even (x * 10 ^ 2) \<le> round_half_even (y * 10 ^ 2)"
    using assms by (intro round_half_even_mono) simp
  then have le: "(of_int (round_half_even (x * 10 ^ 2)) :: rat) / 10 ^ 2
      \<le> of_int (round_half_even (y * 10 ^ 2)) / 10 ^ 2"
    by (simp add: divide_right_mono)
  have "of_int 100 \<le> x * 10 ^ 2" using assms by simp
  then have "100 \<le> round_half_even (x * 10 ^ 2)" by (rule round_half_even_ge)
  then have "(0::rat) < of_int (round_half_even (x * 10 ^ 2)) / 10 ^ 2" by simp
  then show ?thesis unfolding py_round_def using le by (intro to_double_mono)
qed

lemma py_round_ge_100: "100 \<le> x \<Longrightarrow> 100 \<le> py_round x 2"
proof -
  assume "100 \<le> x"
  then have "of_int 10000 \<le> x * 10 ^ 2" by simp
  then have "10000 \<le> round_half_even (x * 10 ^ 2)" by (rule round_half_even_ge)
  then have "(10000::rat) \<le> of_int (round_half_even (x * 10 ^ 2))" by linarith
  then have "(100::rat) \<le> of_int (round_half_even (x * 10 ^ 2)) / 10 ^ 2" by simp
  then show ?thesis
    unfolding py_round_def by (intro to_double_ge) (simp_all add: to_double_consts)
qed

lemma py_round_le_200: "100 \<le> x \<Longrightarrow> x \<le> 200 \<Longrightarrow> py_round x 2 \<le> 200"
proof -
  assume x: "100 \<le> x" "x \<le> 200"
  then have "x * 10 ^ 2 \<le> of_int 20000" by simp
  then have "round_half_even (x * 10 ^ 2) \<le> 20000" by (rule round_half_even_le)
  then have "of_int (round_half_even (x * 10 ^ 2)) \<le> (20000::rat)" by linarith
  then have le: "of_int (round_half_even (x * 10 ^ 2)) / 10 ^ 2 \<le> (200::rat)" by simp
  have "of_int 10000 \<le> x * 10 ^ 2" using x by simp
  then have "10000 \<le> round_half_even (x * 10 ^ 2)" by (rule round_half_even_ge)
  then have "(0::rat) < of_int (round_half_even (x * 10 ^ 2)) / 10 ^ 2" by simp
  then show ?thesis
    unfolding py_round_def using le by (intro to_double_le) (simp_all add: to_double_consts)
qed

lemma rescaled_ge: "100 < v \<Longrightarrow> 100 \<le> rescaled v"
  unfolding rescaled_def by (intro py_round_ge_100 stage_positive(4))

lemma rescaled_le_200: "100 < v \<Longrightarrow> v \<le> 1000 \<Longrightarrow> rescaled v \<le> 200"
  unfolding rescaled_def by (intro py_round_le_200 stage_positive(4) rescale_le_200)

lemma rescaled_mono: "100 < v \<Longrightarrow> v \<le> w \<Longrightarrow> rescaled v \<le> rescaled w"
proof -
  assume a: "100 < v" "v \<le> w"
  have "1 \<le> rescale v" using stage_positive(4) [OF a(1)] by simp
  then show ?thesis unfolding rescaled_def using a by (intro py_round_mono rescale_mono)
qed

lemma rescaled_at_thresholds:
  "rescaled below_threshold = 100"
  "rescaled threshold = 7037578105208177 / 70368744177664"
  by code_simp+

lemma rescaled_below_threshold: "100 < v \<Longrightarrow> v \<le> below_threshold \<Longrightarrow> rescaled v = 100"
  using rescaled_mono [of v below_threshold] rescaled_ge [of v] rescaled_at_thresholds(1)
  by simp

lemma rescaled_from_threshold: "threshold \<le> v \<Longrightarrow> 100 < rescaled v"
proof -
  assume "threshold \<le> v"
  moreover have "100 < threshold" by (simp add: threshold_def)
  ultimately have "rescaled threshold \<le> rescaled v" by (intro rescaled_mono)
  then show ?thesis by (simp add: rescaled_at_thresholds(2))
qed

lemma to_double_error_crude:
  assumes "0 < y"
  shows "\<bar>to_double y - y\<bar> \<le> y / 1000000000000000"
proof -
  have e: "\<bar>to_double y - y\<bar> \<le> y / 2 ^ 53" using assms by (rule to_double_error)
  have "y / 2 ^ 53 \<le> y / 1000000000000000" using assms by (intro divide_left_mono) simp_all
  then show ?thesis using e by linarith
qed

lemma to_double_crude:
  assumes "0 < y"
  shows "y * (1 - 1 / 1000000000000000) \<le> to_double y"
    and "to_double y \<le> y * (1 + 1 / 1000000000000000)"
proof -
  have e': "\<bar>to_double y - y\<bar> \<le> y / 1000000000000000"
    using assms by (rule to_double_error_crude)
  have "y * (1 - 1 / 1000000000000000) = y - y / 1000000000000000" by (simp add: algebra_simps)
  then show "y * (1 - 1 / 1000000000000000) \<le> to_double y" using e' by linarith
  have "y * (1 + 1 / 1000000000000000) = y + y / 1000000000000000" by (simp add: algebra_simps)
  then show "to_double y \<le> y * (1 + 1 / 1000000000000000)" using e' by linarith
qed

lemma rescale_near:
  assumes "100 < v"
  shows "\<bar>rescale v - (100 + (v - 100) / 9)\<bar> \<le> (100 + (v - 100) / 9) / 100000000000000"
proof -
  define d where "d = fsub v 100"
  define q where "q = fdiv d 900"
  define s where "s = fadd 1 q"
  define x where "x = fmul 100 s"
  have pos: "0 < d" "0 < q" "1 \<le> s"
    using stage_positive [OF assms] by (simp_all add: d_def q_def s_def)
  have d: "(v - 100) * (1 - 1 / 1000000000000000) \<le> d" "d \<le> (v - 100) * (1 + 1 / 1000000000000000)"
    unfolding d_def fsub_def using assms by (intro to_double_crude; simp)+
  have q: "d / 900 * (1 - 1 / 1000000000000000) \<le> q" "q \<le> d / 900 * (1 + 1 / 1000000000000000)"
    unfolding q_def fdiv_def using pos(1) by (intro to_double_crude; simp)+
  have s: "(1 + q) * (1 - 1 / 1000000000000000) \<le> s" "s \<le> (1 + q) * (1 + 1 / 1000000000000000)"
    unfolding s_def fadd_def using pos(2) by (intro to_double_crude; simp)+
  have x: "100 * s * (1 - 1 / 1000000000000000) \<le> x" "x \<le> 100 * s * (1 + 1 / 1000000000000000)"
    unfolding x_def fmul_def using pos(3) by (intro to_double_crude; simp)+
  have q2: "q \<le> (v - 100) / 900 * (1 + 3 / 1000000000000000)"
    using d(2) q(2) assms by (simp add: field_simps)
  have s2: "s \<le> (1 + (v - 100) / 900) * (1 + 5 / 1000000000000000)"
    using q2 s(2) assms by (simp add: field_simps)
  have up: "x \<le> (100 + (v - 100) / 9) * (1 + 1 / 100000000000000)"
    using s2 x(2) assms by (simp add: field_simps)
  have q1: "(v - 100) / 900 * (1 - 3 / 1000000000000000) \<le> q"
    using d(1) q(1) assms by (simp add: field_simps)
  have s1: "(1 + (v - 100) / 900) * (1 - 5 / 1000000000000000) \<le> s"
    using q1 s(1) assms by (simp add: field_simps)
  have lo: "(100 + (v - 100) / 9) * (1 - 1 / 100000000000000) \<le> x"
    using s1 x(1) assms by (simp add: field_simps)
  have r: "rescale v = x" by (simp add: rescale_def x_def s_def q_def d_def)
  define E where "E = 100 + (v - 100) / 9"
  define c where "c = E / 100000000000000"
  have "E * (1 + 1 / 100000000000000) = E + c"
    by (simp add: algebra_simps c_def)
  moreover have "E * (1 - 1 / 100000000000000) = E - c"
    by (simp add: algebra_simps c_def)
  ultimately have "x \<le> E + c" "E - c \<le> x"
    using up lo unfolding E_def [symmetric] by simp_all
  then have "\<bar>x - E\<bar> \<le> c" by linarith
  then show ?thesis unfolding r E_def c_def .
qed

lemma py_round_near:
  assumes "100 \<le> x"
  shows "\<bar>py_round x 2 - x\<bar> \<le> 1 / 200 + (x + 1 / 200) / 1000000000000000"
proof -
  define m where "m = (of_int (round_half_even (x * 10 ^ 2)) :: rat) / 10 ^ 2"
  have "\<bar>of_int (round_half_even (x * 10 ^ 2)) - x * 10 ^ 2\<bar> \<le> 1 / 2"
    using round_half_even_near [of "x * 10 ^ 2"] by linarith
  then have mx: "\<bar>m - x\<bar> \<le> 1 / 200" unfolding m_def by (simp add: field_simps)
  then have mpos: "0 < m" using assms by linarith
  have "\<bar>to_double m - m\<bar> \<le> m / 1000000000000000"
    using mpos by (rule to_double_error_crude)
  moreover have "m \<le> x + 1 / 200" using mx by linarith
  then have "m / 1000000000000000 \<le> (x + 1 / 200) / 1000000000000000"
    by (rule divide_right_mono) simp
  ultimately have "\<bar>to_double m - m\<bar> \<le> (x + 1 / 200) / 1000000000000000"
    by (rule order_trans)
  moreover define c where "c = (x + 1 / 200) / 1000000000000000"
  ultimately have "\<bar>to_double m - m\<bar> \<le> c" by simp
  then have "\<bar>to_double m - x\<bar> \<le> 1 / 200 + c"
    using mx by linarith
  then have "\<bar>to_double m - x\<bar> \<le> 1 / 200 + (x + 1 / 200) / 1000000000000000"
    unfolding c_def .
  then show ?thesis by (simp add: py_round_def m_def)
qed

lemma rescaled_near:
  assumes "100 < v"
  shows "\<bar>rescaled v - (100 + (v - 100) / 9)\<bar> \<le> 1 / 200 + (100 + (v - 100) / 9) / 10000000000000"
proof -
  define E where "E = 100 + (v - 100) / 9"
  define c where "c = E / 100000000000000"
  define c' where "c' = (rescale v + 1 / 200) / 1000000000000000"
  have E: "100 < E" using assms by (simp add: E_def)
  have x: "\<bar>rescale v - E\<bar> \<le> c"
    unfolding E_def c_def using assms by (rule rescale_near)
  have "100 \<le> rescale v" using assms by (rule stage_positive(4))
  then have r: "\<bar>rescaled v - rescale v\<bar> \<le> 1 / 200 + c'"
    unfolding rescaled_def c'_def by (rule py_round_near)
  have "rescale v \<le> E + c" using x by linarith
  then have "rescale v + 1 / 200 \<le> E + E / 100000000000000 + 1 / 200" by (simp add: c_def)
  also have "\<dots> \<le> 10 * E" using E by (simp add: field_simps)
  finally have "c' \<le> 10 * E / 1000000000000000"
    unfolding c'_def by (rule divide_right_mono) simp
  then have c': "c' \<le> c" by (simp add: c_def)
  have "\<bar>rescaled v - E\<bar> \<le> 1 / 200 + (c + c)" using x r c' by linarith
  moreover have "c + c \<le> E / 10000000000000" using E by (simp add: c_def field_simps)
  moreover define k where "k = E / 10000000000000"
  ultimately have "\<bar>rescaled v - E\<bar> \<le> 1 / 200 + k" by linarith
  then show ?thesis unfolding E_def k_def .
qed

lemma rescaled_small: "rescaled (10001 / 100) = 100"
  by code_simp

lemma rescaled_le_self:
  assumes "100 < v"
  shows "rescaled v \<le> v"
proof (cases "v \<le> 10001 / 100")
  case True
  then have "rescaled v \<le> rescaled (10001 / 100)" using assms by (intro rescaled_mono)
  then show ?thesis using assms by (simp add: rescaled_small)
next
  case False
  define k where "k = (100 + (v - 100) / 9) / 10000000000000"
  have "\<bar>rescaled v - (100 + (v - 100) / 9)\<bar> \<le> 1 / 200 + k"
    unfolding k_def using assms by (rule rescaled_near)
  then have "rescaled v \<le> (100 + (v - 100) / 9) + (1 / 200 + k)" by linarith
  also have "\<dots> \<le> v" unfolding k_def using False by (simp add: field_simps)
  finally show ?thesis .
qed

lemma binary_exponent_unique:
  assumes "2 powi e \<le> y" and "y < 2 powi (e + 1)"
  shows "binary_exponent y = e"
proof -
  have y: "0 < y" using assms(1) ulp_pos [of e] by linarith
  have b: "2 powi binary_exponent y \<le> y" "y < 2 powi (binary_exponent y + 1)"
    using binary_exponent_bounds [OF y] by simp_all
  show ?thesis
  proof (rule ccontr)
    assume "binary_exponent y \<noteq> e"
    then consider "binary_exponent y + 1 \<le> e" | "e + 1 \<le> binary_exponent y" by linarith
    then show False
    proof cases
      case 1
      then have "(2::rat) powi (binary_exponent y + 1) \<le> 2 powi e"
        by (intro power_int_increasing) auto
      then show False using b(2) assms(1) by linarith
    next
      case 2
      then have "(2::rat) powi (e + 1) \<le> 2 powi binary_exponent y"
        by (intro power_int_increasing) auto
      then show False using b(1) assms(2) by linarith
    qed
  qed
qed

lemma to_double_grid:
  assumes "2 ^ 52 \<le> n" and "n < 2 ^ 53"
  shows "to_double (of_int n * 2 powi k) = of_int n * 2 powi k"
proof -
  define y where "y = (of_int n :: rat) * 2 powi k"
  have n: "(2::rat) ^ 52 \<le> of_int n" "of_int n < (2::rat) ^ 53"
    using assms by (metis of_int_le_iff of_int_less_iff of_int_numeral of_int_power)+
  have u: "(0::rat) < 2 powi k" by (rule ulp_pos)
  have lo: "2 powi (k + 52) \<le> y"
  proof -
    have "(2::rat) powi (k + 52) = 2 ^ 52 * 2 powi k" using pow2_split [of "k + 52"] by simp
    also have "\<dots> \<le> y" unfolding y_def using n(1) u by (intro mult_right_mono) auto
    finally show ?thesis .
  qed
  have hi: "y < 2 powi (k + 52 + 1)"
  proof -
    have "y < 2 ^ 53 * 2 powi k" unfolding y_def using n(2) u by (intro mult_strict_right_mono)
    also have "\<dots> = 2 powi (k + 52 + 1)" using pow2_split1 [of "k + 52"] by simp
    finally show ?thesis .
  qed
  have e: "binary_exponent y = k + 52" using lo hi by (rule binary_exponent_unique)
  have y: "0 < y" using lo ulp_pos [of "k + 52"] by linarith
  have yn: "y / 2 powi k = of_int n" unfolding y_def using u by simp
  have "to_double y =
      of_int (round_half_even (y / 2 powi (binary_exponent y - 52))) *
      2 powi (binary_exponent y - 52)"
    using y by (rule to_double_pos)
  also have "\<dots> = of_int (round_half_even (y / 2 powi k)) * 2 powi k" by (simp add: e)
  also have "\<dots> = of_int n * 2 powi k" by (simp only: yn round_half_even_of_int)
  finally show ?thesis unfolding y_def .
qed

lemma to_double_idem: "to_double (to_double y) = to_double y"
proof -
  have pos: "to_double (to_double y) = to_double y" if y: "0 < y" for y
  proof -
    define e where "e = binary_exponent y"
    define u where "u = (2::rat) powi (e - 52)"
    define n where "n = round_half_even (y / u)"
    have u: "0 < u" unfolding u_def by (rule ulp_pos)
    have t: "to_double y = of_int n * u" using y by (simp add: to_double_pos e_def u_def n_def)
    have b: "2 powi e \<le> to_double y" "to_double y \<le> 2 powi (e + 1)"
      using to_double_binade [OF y] by (simp_all add: e_def)
    have p1: "2 powi e = 2 ^ 52 * u" unfolding u_def by (rule pow2_split)
    have p2: "2 powi (e + 1) = 2 ^ 53 * u" unfolding u_def by (rule pow2_split1)
    have "2 ^ 52 * u \<le> of_int n * u" using b(1) unfolding t p1 .
    then have "(2::rat) ^ 52 \<le> of_int n" using u by (simp only: mult_le_cancel_right_pos)
    then have n1: "2 ^ 52 \<le> n" by (metis of_int_le_iff of_int_numeral of_int_power)
    have "of_int n * u \<le> 2 ^ 53 * u" using b(2) unfolding t p2 .
    then have "of_int n \<le> (2::rat) ^ 53" using u by (simp only: mult_le_cancel_right_pos)
    then have n2: "n \<le> 2 ^ 53" by (metis of_int_le_iff of_int_numeral of_int_power)
    show ?thesis
    proof (cases "n = 2 ^ 53")
      case True
      have "to_double y = of_int (2 ^ 52) * 2 powi (e - 52 + 1)"
        unfolding t True u_def by (subst power_int_add) simp_all
      moreover have "to_double (of_int (2 ^ 52) * 2 powi (e - 52 + 1)) =
          of_int (2 ^ 52) * 2 powi (e - 52 + 1)"
        by (rule to_double_grid) simp_all
      ultimately show ?thesis by simp
    next
      case False
      then have "n < 2 ^ 53" using n2 by simp
      then show ?thesis unfolding t u_def using n1 by (intro to_double_grid)
    qed
  qed
  have neg: "to_double (- y) = - to_double y" for y
    by (simp add: to_double_def Let_def)
  consider "y = 0" | "0 < y" | "y < 0" by linarith
  then show ?thesis
  proof cases
    case 1
    then show ?thesis by (simp add: to_double_def)
  next
    case 2
    then show ?thesis by (rule pos)
  next
    case 3
    then have "0 < - y" by simp
    then have "to_double (to_double (- y)) = to_double (- y)" by (rule pos)
    then show ?thesis by (simp add: neg)
  qed
qed

lemma is_double_to_double: "is_double (to_double y)"
  by (simp add: is_double_def to_double_idem)

lemma is_double_py_round: "is_double (py_round x ndigits)"
  by (simp add: py_round_def is_double_to_double)

lemma no_double_between:
  assumes "is_double v"
  shows "v \<le> below_threshold \<or> threshold \<le> v"
proof (rule ccontr)
  assume "\<not> (v \<le> below_threshold \<or> threshold \<le> v)"
  then have v: "below_threshold < v" "v < threshold" by simp_all
  have "2 powi 6 \<le> v" using v(1) by (simp add: below_threshold_def)
  moreover have "v < 2 powi (6 + 1)" using v(2) by (simp add: threshold_def)
  ultimately have e: "binary_exponent v = 6" by (rule binary_exponent_unique)
  have pos: "0 < v" using v(1) by (simp add: below_threshold_def)
  define n where "n = round_half_even (v / 2 powi (6 - 52))"
  have "to_double v = of_int n * 2 powi (6 - 52)"
    using pos by (simp add: to_double_pos e n_def)
  then have vn: "v = of_int n / 70368744177664"
    using assms by (simp add: is_double_def power_int_minus_divide)
  have "(7040041011254394::rat) < of_int n"
    using v(1) unfolding vn below_threshold_def by (simp add: field_simps)
  then have "7040041011254394 < n" by linarith
  moreover have "of_int n < (7040041011254395::rat)"
    using v(2) unfolding vn threshold_def by (simp add: field_simps)
  then have "n < 7040041011254395" by linarith
  ultimately show False by linarith
qed

lemma py_round_2_spec:
  "\<exists>n. py_round x 2 = to_double (of_int n / 100) \<and>
       \<bar>of_int n / 100 - x\<bar> \<le> 1 / 200 \<and>
       (\<bar>of_int n / 100 - x\<bar> = 1 / 200 \<longrightarrow> even n)"
proof -
  define n where "n = round_half_even (x * 10 ^ 2)"
  have e: "of_int n / 100 - x = (of_int n - x * 10 ^ 2) / 100"
    by (simp add: field_simps)
  have "\<bar>of_int n - x * 10 ^ 2\<bar> \<le> 1 / 2"
    unfolding n_def using round_half_even_near [of "x * 10 ^ 2"] by linarith
  then have 1: "\<bar>of_int n / 100 - x\<bar> \<le> 1 / 200" unfolding e by simp
  have 2: "even n" if "\<bar>of_int n / 100 - x\<bar> = 1 / 200"
  proof -
    from that have "\<bar>of_int n - x * 10 ^ 2\<bar> = 1 / 2" unfolding e by simp
    then show ?thesis unfolding n_def by (rule round_half_even_tie)
  qed
  have "py_round x 2 = to_double (of_int n / 100)" by (simp add: py_round_def n_def)
  then show ?thesis using 1 2 by blast
qed

lemma value_normalize:
  "value (normalize_value record) =
     (if 100 < value record then rescaled (value record) else value record)"
  by (simp add: normalize_value_def Let_def rescaled_def rescale_def)

text \<open>
  C5. The normalize step sets the value \<open>v\<close> of a record to
  \<open>round(100 * (1 + (v - 100) / 900), 2)\<close> when \<open>v > 100\<close> and leaves it unchanged
  when \<open>v \<le> 100\<close>; in both cases it sets \<open>metadata["normalized"]\<close> to true. It
  changes no other key of the metadata and no other field. The rounding is Python's:
  the new value is the double nearest to the multiple of \<open>0.01\<close> nearest to the
  rescaling computed in floats (a tie going to the even multiple), and it is within
  \<open>0.005\<close>, and a relative \<open>10^-13\<close>, of the exact \<open>100 * (1 + (v - 100) / 900)\<close>.
\<close>

theorem normalize_value_spec:
  "(100 < value record \<longrightarrow>
      value (normalize_value record) =
        py_round (fmul 100 (fadd 1 (fdiv (fsub (value record) 100) 900))) 2 \<and>
      (\<exists>n. value (normalize_value record) = to_double (of_int n / 100) \<and>
           \<bar>of_int n / 100 - rescale (value record)\<bar> \<le> 1 / 200 \<and>
           (\<bar>of_int n / 100 - rescale (value record)\<bar> = 1 / 200 \<longrightarrow> even n)) \<and>
      is_double (value (normalize_value record)) \<and>
      \<bar>value (normalize_value record) - 100 * (1 + (value record - 100) / 900)\<bar>
        \<le> 1 / 200 + 100 * (1 + (value record - 100) / 900) / 10000000000000) \<and>
   (value record \<le> 100 \<longrightarrow> value (normalize_value record) = value record) \<and>
   map_of (metadata (normalize_value record)) ''normalized'' = Some (MBool True) \<and>
   (\<forall>k. k \<noteq> ''normalized'' \<longrightarrow>
      map_of (metadata (normalize_value record)) k = map_of (metadata record) k) \<and>
   rec_id (normalize_value record) = rec_id record \<and>
   timestamp (normalize_value record) = timestamp record \<and>
   status (normalize_value record) = status record \<and>
   tags (normalize_value record) = tags record"
proof -
  have above: "value (normalize_value record) =
        py_round (fmul 100 (fadd 1 (fdiv (fsub (value record) 100) 900))) 2 \<and>
      (\<exists>n. value (normalize_value record) = to_double (of_int n / 100) \<and>
           \<bar>of_int n / 100 - rescale (value record)\<bar> \<le> 1 / 200 \<and>
           (\<bar>of_int n / 100 - rescale (value record)\<bar> = 1 / 200 \<longrightarrow> even n)) \<and>
      is_double (value (normalize_value record)) \<and>
      \<bar>value (normalize_value record) - 100 * (1 + (value record - 100) / 900)\<bar>
        \<le> 1 / 200 + 100 * (1 + (value record - 100) / 900) / 10000000000000"
    if v: "100 < value record"
  proof -
    have r: "value (normalize_value record) = py_round (rescale (value record)) 2"
      using v by (simp add: value_normalize rescaled_def)
    have 1: "value (normalize_value record) =
        py_round (fmul 100 (fadd 1 (fdiv (fsub (value record) 100) 900))) 2"
      unfolding r by (simp add: rescale_def)
    have 2: "\<exists>n. value (normalize_value record) = to_double (of_int n / 100) \<and>
           \<bar>of_int n / 100 - rescale (value record)\<bar> \<le> 1 / 200 \<and>
           (\<bar>of_int n / 100 - rescale (value record)\<bar> = 1 / 200 \<longrightarrow> even n)"
      unfolding r by (rule py_round_2_spec)
    have 3: "is_double (value (normalize_value record))"
      unfolding r by (rule is_double_py_round)
    have e: "100 * (1 + (value record - 100) / 900) = 100 + (value record - 100) / 9"
      by (simp add: field_simps)
    have 4: "\<bar>value (normalize_value record) - 100 * (1 + (value record - 100) / 900)\<bar>
        \<le> 1 / 200 + 100 * (1 + (value record - 100) / 900) / 10000000000000"
      unfolding e r rescaled_def [symmetric] using v by (rule rescaled_near)
    show ?thesis using 1 2 3 4 by blast
  qed
  have rest: "(value record \<le> 100 \<longrightarrow> value (normalize_value record) = value record) \<and>
   map_of (metadata (normalize_value record)) ''normalized'' = Some (MBool True) \<and>
   (\<forall>k. k \<noteq> ''normalized'' \<longrightarrow>
      map_of (metadata (normalize_value record)) k = map_of (metadata record) k) \<and>
   rec_id (normalize_value record) = rec_id record \<and>
   timestamp (normalize_value record) = timestamp record \<and>
   status (normalize_value record) = status record \<and>
   tags (normalize_value record) = tags record"
    by (simp add: normalize_value_def Let_def update_conv')
  show ?thesis using above rest by blast
qed

lemma normalize_samples:
  "value (normalize_value (rec1\<lparr>value := 827 / 8\<rparr>)) = 882863856639017 / 8796093022208"
  "value (normalize_value (rec1\<lparr>value := 3526353692603187 / 35184372088832\<rparr>)) =
     3519492740045865 / 35184372088832"
  "value (normalize_value (rec1\<lparr>value := 550\<rparr>)) = 150"
  "to_double (10037 / 100) = 882863856639017 / 8796093022208"
  "to_double (10003 / 100) = 3519492740045865 / 35184372088832"
  by code_simp+

theorem normalize_value_spec_witness:
  "value (normalize_value (rec1\<lparr>value := 827 / 8\<rparr>)) = to_double (10037 / 100) \<and>
   value (normalize_value (rec1\<lparr>value := 3526353692603187 / 35184372088832\<rparr>)) =
     to_double (10003 / 100) \<and>
   value (normalize_value (rec1\<lparr>value := 550\<rparr>)) = 150 \<and>
   value (normalize_value (rec1\<lparr>value := 42\<rparr>)) = 42 \<and>
   is_double (value (normalize_value (rec1\<lparr>value := 827 / 8\<rparr>))) \<and>
   map_of (metadata (normalize_value (rec1\<lparr>value := 550\<rparr>))) ''normalized'' =
     Some (MBool True) \<and>
   map_of (metadata (normalize_value (rec1\<lparr>value := 550\<rparr>))) ''source_id'' =
     Some (MStr ''sensor_1'')"
proof -
  have v: "100 < value (rec1\<lparr>value := 827 / 8\<rparr>)" by simp
  have d: "is_double (value (normalize_value (rec1\<lparr>value := 827 / 8\<rparr>)))"
    using normalize_value_spec [of "rec1\<lparr>value := 827 / 8\<rparr>"] v by blast
  have m: "map_of (metadata (normalize_value (rec1\<lparr>value := 550\<rparr>))) ''normalized'' =
     Some (MBool True)"
    "map_of (metadata (normalize_value (rec1\<lparr>value := 550\<rparr>))) ''source_id'' =
     Some (MStr ''sensor_1'')"
    "value (normalize_value (rec1\<lparr>value := 42\<rparr>)) = 42"
    using normalize_value_spec [of "rec1\<lparr>value := 550\<rparr>"]
      normalize_value_spec [of "rec1\<lparr>value := 42\<rparr>"]
    by (simp_all add: rec1_def)
  show ?thesis using d m by (simp add: normalize_samples)
qed

lemma normalize_just_above_100: "value (normalize_value rec_just_above_100) = 100"
  by code_simp

text \<open>
  C6, as the specification states it: for every value in \<open>(100, 1000]\<close> the normalize
  step produces a value in \<open>(100, 200]\<close>. It does not: the value \<open>100.03125\<close> is
  rescaled to \<open>100.0034...\<close>, which rounds to \<open>100.0\<close>.
\<close>

theorem normalize_value_range_counterexample:
  "\<not> (100 < value rec_just_above_100 \<and> value rec_just_above_100 \<le> 1000 \<longrightarrow>
      100 < value (normalize_value rec_just_above_100) \<and>
      value (normalize_value rec_just_above_100) \<le> 200)"
  by (simp add: normalize_just_above_100) (simp add: rec_just_above_100_def)

text \<open>
  C6, amended: for every value \<open>v\<close> in \<open>(100, 1000]\<close> the normalize step produces a
  value in \<open>[100, 200]\<close>. It is exactly \<open>100.0\<close> for every \<open>v\<close> up to
  \<open>100.04499999999999\<close>, the double just below \<open>100.045\<close>, and it is in \<open>(100, 200]\<close>
  for every \<open>v\<close> from the double \<open>100.045\<close> on; no double lies between these two.
\<close>

theorem normalize_value_range:
  assumes "100 < value record" and "value record \<le> 1000"
  shows "100 \<le> value (normalize_value record) \<and> value (normalize_value record) \<le> 200 \<and>
    (value record \<le> below_threshold \<longrightarrow> value (normalize_value record) = 100) \<and>
    (threshold \<le> value record \<longrightarrow> 100 < value (normalize_value record)) \<and>
    (is_double (value record) \<longrightarrow>
       value record \<le> below_threshold \<or> threshold \<le> value record)"
proof -
  have v: "value (normalize_value record) = rescaled (value record)"
    using assms(1) by (simp add: value_normalize)
  have 1: "100 \<le> rescaled (value record)" using assms(1) by (rule rescaled_ge)
  have 2: "rescaled (value record) \<le> 200" using assms by (rule rescaled_le_200)
  have 3: "value record \<le> below_threshold \<longrightarrow> rescaled (value record) = 100"
    using assms(1) by (simp add: rescaled_below_threshold)
  have 4: "threshold \<le> value record \<longrightarrow> 100 < rescaled (value record)"
    by (simp add: rescaled_from_threshold)
  have 5: "is_double (value record) \<longrightarrow>
       value record \<le> below_threshold \<or> threshold \<le> value record"
    by (simp add: no_double_between)
  show ?thesis unfolding v using 1 2 3 4 5 by blast
qed

theorem normalize_value_range_witness:
  "100 < value (rec1\<lparr>value := 1000\<rparr>) \<and> value (rec1\<lparr>value := 1000\<rparr>) \<le> 1000 \<and>
   100 < value (normalize_value (rec1\<lparr>value := 1000\<rparr>)) \<and>
   value (normalize_value (rec1\<lparr>value := 1000\<rparr>)) \<le> 200 \<and>
   100 < value (rec1\<lparr>value := below_threshold\<rparr>) \<and>
   value (normalize_value (rec1\<lparr>value := below_threshold\<rparr>)) = 100"
proof -
  have a: "100 < value (rec1\<lparr>value := 1000\<rparr>)" "value (rec1\<lparr>value := 1000\<rparr>) \<le> 1000"
    "threshold \<le> value (rec1\<lparr>value := 1000\<rparr>)"
    by (simp_all add: threshold_def)
  have b: "100 < value (rec1\<lparr>value := below_threshold\<rparr>)"
    "value (rec1\<lparr>value := below_threshold\<rparr>) \<le> 1000"
    "value (rec1\<lparr>value := below_threshold\<rparr>) \<le> below_threshold"
    by (simp_all add: below_threshold_def)
  show ?thesis
    using normalize_value_range [OF a(1) a(2)] normalize_value_range [OF b(1) b(2)] a b
    by blast
qed

text \<open>
  C7. For every record with a value \<open>v \<ge> 0\<close> the categorize step assigns exactly one
  category, \<open>low\<close> when \<open>v < 30\<close>, \<open>medium\<close> when \<open>30 \<le> v < 70\<close>, \<open>high\<close> when
  \<open>v \<ge> 70\<close>: it sets \<open>metadata["category"]\<close> to that name and appends the tag
  \<open>category:<name>\<close> to the tags of the record.
\<close>

theorem categorize_value_spec:
  assumes "0 \<le> value record"
  shows "\<exists>!c. spec_category (value record) c \<and>
           map_of (metadata (categorize_value record)) ''category'' = Some (MStr c) \<and>
           tags (categorize_value record) = tags record @ [''category:'' @ c]"
  by (auto simp: categorize_value_def spec_category_def update_conv' Let_def)

theorem categorize_value_spec_witness:
  "0 \<le> value rec1 \<and> spec_category (value rec1) ''high'' \<and>
   map_of (metadata (categorize_value rec1)) ''category'' = Some (MStr ''high'') \<and>
   tags (categorize_value rec1) = [''source'', ''type'', ''category:high'']"
  using categorize_value_spec [of rec1]
  by (simp add: rec1_def categorize_value_def spec_category_def Let_def)

section \<open>The statistics\<close>

text \<open>
  C8. In every state of the counters, the one right after construction included,
  \<^verbatim>\<open>get_statistics\<close> raises nothing and gives finite rates: each denominator is at
  least 1, and is 1 whenever it would otherwise be less than 1.
\<close>

theorem get_statistics_total:
  "\<exists>s. get_statistics now st = Inr s \<and>
     records_per_second s = of_int (processed st) / rate_denominator now st \<and>
     success_rate s = of_int (processed st) / of_int (success_denominator st) \<and>
     1 \<le> rate_denominator now st \<and> 1 \<le> success_denominator st \<and>
     (now - start_time st < 1 \<longrightarrow> rate_denominator now st = 1) \<and>
     (processed st + failed st < 1 \<longrightarrow> success_denominator st = 1) \<and>
     \<bar>records_per_second s\<bar> \<le> \<bar>of_int (processed st)\<bar> \<and>
     \<bar>success_rate s\<bar> \<le> \<bar>of_int (processed st)\<bar>"
proof -
  have d1: "1 \<le> rate_denominator now st" by (simp add: rate_denominator_def)
  have d2: "1 \<le> success_denominator st" by (simp add: success_denominator_def)
  then have d2': "(1::rat) \<le> of_int (success_denominator st)" by linarith
  have b: "\<bar>a / d\<bar> \<le> \<bar>a\<bar>" if "1 \<le> d" for a d :: rat
  proof -
    have "\<bar>a\<bar> / d \<le> \<bar>a\<bar> / 1" using that by (intro divide_left_mono) auto
    then show ?thesis using that by simp
  qed
  have g: "get_statistics now st =
    Inr \<lparr>stats_processed = processed st, stats_failed = failed st,
         stats_start_time = start_time st, runtime_seconds = now - start_time st,
         records_per_second = of_int (processed st) / rate_denominator now st,
         success_rate = of_int (processed st) / of_int (success_denominator st)\<rparr>"
    using d1 d2' by (simp add: get_statistics_def truediv_def Let_def)
  show ?thesis
    unfolding g using d1 d2 b [OF d1] b [OF d2']
    by (simp add: rate_denominator_def success_denominator_def)
qed

theorem get_statistics_total_witness:
  "get_statistics 5 (init_stats 5) =
     Inr \<lparr>stats_processed = 0, stats_failed = 0, stats_start_time = 5,
          runtime_seconds = 0, records_per_second = 0, success_rate = 0\<rparr> \<and>
   rate_denominator 5 (init_stats 5) = 1 \<and> success_denominator (init_stats 5) = 1"
  using get_statistics_total [of 5 "init_stats 5"]
  by (simp add: init_stats_def get_statistics_def truediv_def rate_denominator_def
      success_denominator_def)

section \<open>The pipeline and the batch\<close>

lemma length_run_sched: "length (run_sched cfg sched tasks) = length tasks"
  by (induction sched arbitrary: tasks) auto

lemma length_gathered: "length (gathered cfg sched records) = length records"
  by (simp add: gathered_def length_run_sched)

lemma handle_results_closed:
  "handle_results results acc st records =
     (acc @ map task_record (filter (\<lambda>t. \<not> is_raised t) results),
      st\<lparr>processed := processed st + int (length (filter (\<lambda>t. \<not> is_raised t) results)),
         failed := failed st + int (length (filter is_raised results))\<rparr>,
      records @ map final_record results)"
proof (induction results arbitrary: acc st records)
  case Nil
  then show ?case by simp
next
  case (Cons t results)
  show ?case by (cases t) (simp_all add: Cons.IH final_record_def)
qed



lemma list_all_update: "list_all P xs \<Longrightarrow> P x \<Longrightarrow> list_all P (xs[i := x])"
  using set_update_subset_insert [of xs i x] by (auto simp: list_all_iff)

lemma run_sched_invariant:
  assumes step: "\<And>now t. P t \<Longrightarrow> P (step_task cfg now t)"
  shows "list_all P tasks \<Longrightarrow> list_all P (run_sched cfg sched tasks)"
proof (induction sched arbitrary: tasks)
  case Nil
  then show ?case by simp
next
  case (Cons a sched)
  obtain i now where a: "a = (i, now)" by (cases a)
  show ?case
  proof (cases "i < length tasks")
    case True
    have "P (tasks ! i)" using Cons.prems True by (simp add: list_all_length)
    then have "P (step_task cfg now (tasks ! i))" by (rule step)
    then have "list_all P (tasks[i := step_task cfg now (tasks ! i)])"
      using Cons.prems by (simp add: list_all_update)
    then show ?thesis using True a Cons.IH by simp
  next
    case False
    then show ?thesis using a Cons by simp
  qed
qed




lemma process_batch_timed_out:
  "timed_out cfg sched records \<Longrightarrow>
   process_batch cfg sched st records =
     ([], st, map task_record (gathered cfg sched records))"
  by (simp add: process_batch_def timed_out_def Let_def)

lemma process_batch_gathered:
  "\<not> timed_out cfg sched records \<Longrightarrow>
   process_batch cfg sched st records =
     (map task_record (filter (\<lambda>t. \<not> is_raised t) (gathered cfg sched records)),
      st\<lparr>processed := processed st +
            int (length (filter (\<lambda>t. \<not> is_raised t) (gathered cfg sched records))),
         failed := failed st + int (length (filter is_raised (gathered cfg sched records)))\<rparr>,
      map final_record (gathered cfg sched records))"
  by (simp add: process_batch_def timed_out_def Let_def handle_results_closed)

text \<open>
  C1. When the processing of a batch is not finished as the timeout elapses,
  \<^verbatim>\<open>process_batch\<close> returns the empty list, however many tasks of the batch have
  returned their record by then.
\<close>

theorem process_batch_timeout_empty:
  "timed_out cfg sched records \<Longrightarrow>
   returned_records (process_batch cfg sched st records) = []"
  by (simp add: process_batch_timed_out returned_records_def)

theorem process_batch_timeout_empty_witness:
  "timed_out default_config sched_cut [rec1, rec2] \<and>
   (\<exists>r. gathered default_config sched_cut [rec1, rec2] ! 0 = Returned r) \<and>
   returned_records (process_batch default_config sched_cut (init_stats 0) [rec1, rec2]) = []"
proof -
  have t: "timed_out default_config sched_cut [rec1, rec2]" by code_simp
  have "finished (gathered default_config sched_cut [rec1, rec2] ! 0) \<and>
    \<not> is_raised (gathered default_config sched_cut [rec1, rec2] ! 0)" by code_simp
  then have r: "\<exists>r. gathered default_config sched_cut [rec1, rec2] ! 0 = Returned r"
    by (cases "gathered default_config sched_cut [rec1, rec2] ! 0") auto
  show ?thesis using t r process_batch_timeout_empty [OF t] by simp
qed

text \<open>
  C10. A call of \<^verbatim>\<open>process_batch\<close> that ends in the timeout of the whole batch
  leaves the counters \<^verbatim>\<open>processed\<close> and \<^verbatim>\<open>failed\<close> (and the start time) as they
  were before the call: the loop that counts runs only over gathered results.
\<close>

theorem process_batch_timeout_stats:
  "timed_out cfg sched records \<Longrightarrow>
   stats_after (process_batch cfg sched st records) = st"
  by (simp add: process_batch_timed_out stats_after_def)

theorem process_batch_timeout_stats_witness:
  "timed_out default_config sched_short [rec1, rec_too_large] \<and>
   is_raised (gathered default_config sched_short [rec1, rec_too_large] ! 1) \<and>
   stats_after (process_batch default_config sched_short (init_stats 0) [rec1, rec_too_large]) =
     init_stats 0"
proof -
  have t: "timed_out default_config sched_short [rec1, rec_too_large]" by code_simp
  have r: "is_raised (gathered default_config sched_short [rec1, rec_too_large] ! 1)"
    by code_simp
  show ?thesis using t r process_batch_timeout_stats [OF t] by simp
qed




lemma processors_lookup:
  "map_of processors s =
     (if s = ''normalize'' then Some (\<lambda>cfg now record. Inr (normalize_value record))
      else if s = ''categorize'' then Some (\<lambda>cfg now record. Inr (categorize_value record))
      else if s = ''validate'' then Some (\<lambda>cfg now record. validate_record cfg record)
      else if s = ''enrich'' then Some (\<lambda>cfg now record. Inr (enrich_metadata now record))
      else None)"
  by (simp add: processors_def)

lemma validate_record_ok: "satisfies_rules cfg record \<Longrightarrow> validate_record cfg record = Inr record"
  by (simp add: satisfies_rules_def validate_record_def Let_def list_all_iff subset_iff)

lemma tags_normalize: "tags (normalize_value record) = tags record"
  by (simp add: normalize_value_def Let_def)

lemma satisfies_normalize:
  assumes "min_value (validation_rules cfg) \<le> 100" and "satisfies_rules cfg record"
  shows "satisfies_rules cfg (normalize_value record)"
proof (cases "100 < value record")
  case True
  then have "100 \<le> rescaled (value record)" and "rescaled (value record) \<le> value record"
    by (simp_all add: rescaled_ge rescaled_le_self)
  then show ?thesis
    using assms True by (simp add: satisfies_rules_def value_normalize tags_normalize)
next
  case False
  then show ?thesis
    using assms by (simp add: satisfies_rules_def value_normalize tags_normalize)
qed

lemma satisfies_categorize:
  "satisfies_rules cfg record \<Longrightarrow> satisfies_rules cfg (categorize_value record)"
  by (auto simp: satisfies_rules_def categorize_value_def Let_def)

lemma satisfies_enrich:
  "satisfies_rules cfg record \<Longrightarrow> satisfies_rules cfg (enrich_metadata now record)"
  by (simp add: satisfies_rules_def enrich_metadata_def)

lemma satisfies_status:
  "satisfies_rules cfg (record\<lparr>status := s\<rparr>) = satisfies_rules cfg record"
  by (simp add: satisfies_rules_def)

lemma safe_state_skip:
  "\<not> is_step step_name \<Longrightarrow> safe_state cfg (step_name # rest) record \<Longrightarrow>
   safe_state cfg rest record"
  by (auto simp: safe_state_def is_step_iff)

lemma safe_run_loop: "safe_state cfg rest record \<Longrightarrow> safe_task cfg (run_loop rest record)"
  by (induction rest) (auto dest: safe_state_skip)

lemma safe_step_task: "safe_task cfg t \<Longrightarrow> safe_task cfg (step_task cfg now t)"
proof (cases t)
  case (Created r)
  assume "safe_task cfg t"
  then have "safe_state cfg (processing_steps cfg) (r\<lparr>status := PROCESSING\<rparr>)"
    using Created by (simp add: safe_state_def satisfies_status)
  then show ?thesis using Created by (simp add: safe_run_loop)
next
  case (Sleeping step_name rest r)
  assume "safe_task cfg t"
  then have s: "safe_state cfg (step_name # rest) r" using Sleeping by simp
  consider (n) "step_name = ''normalize''" | (c) "step_name = ''categorize''"
    | (v) "step_name = ''validate''" | (e) "step_name = ''enrich''" | (u) "\<not> is_step step_name"
    by (auto simp: is_step_iff)
  then show ?thesis
  proof cases
    case n
    have "safe_state cfg rest (normalize_value r)"
      using s n by (auto simp: safe_state_def satisfies_normalize)
    then show ?thesis using Sleeping n by (simp add: processors_lookup safe_run_loop)
  next
    case c
    have "safe_state cfg rest (categorize_value r)"
      using s c by (auto simp: safe_state_def satisfies_categorize)
    then show ?thesis using Sleeping c by (simp add: processors_lookup safe_run_loop)
  next
    case v
    have sat: "satisfies_rules cfg r" using s v by (simp add: safe_state_def)
    have "safe_state cfg rest r" using s v by (auto simp: safe_state_def)
    then show ?thesis
      using Sleeping v sat by (simp add: processors_lookup safe_run_loop validate_record_ok)
  next
    case e
    have "safe_state cfg rest (enrich_metadata now r)"
      using s e by (auto simp: safe_state_def satisfies_enrich)
    then show ?thesis using Sleeping e by (simp add: processors_lookup safe_run_loop)
  next
    case u
    then have "map_of processors step_name = None" by (simp add: is_step_def)
    moreover have "safe_state cfg rest r" using u s by (rule safe_state_skip)
    ultimately show ?thesis using Sleeping by (simp add: safe_run_loop)
  qed
next
  case (Returned r)
  then show ?thesis by simp
next
  case (Raised ex r)
  assume "safe_task cfg t"
  then show ?thesis using Raised by simp
qed

lemma safe_not_raised: "safe_task cfg t \<Longrightarrow> \<not> is_raised t"
  by (cases t) auto

text \<open>
  C3, as the specification states it: every batch of \<open>N\<close> records that satisfy the
  validation rules, finished before the timeout, gives \<open>N\<close> returned records, \<open>N\<close>
  more in \<^verbatim>\<open>processed\<close> and none more in \<^verbatim>\<open>failed\<close>. It does not under every
  configuration: with the steps \<^verbatim>\<open>normalize, validate\<close> and a \<open>min_value\<close> of 150, the
  record of value 150 satisfies the rules, is rescaled to 105.56, and fails the
  validation that follows.
\<close>

theorem process_batch_all_valid_counterexample:
  "\<not> ((\<forall>r\<in>set [rec1]. satisfies_rules config_strict r) \<and>
       \<not> timed_out config_strict sched_one [rec1] \<longrightarrow>
      length (returned_records (process_batch config_strict sched_one (init_stats 0) [rec1])) =
        length [rec1] \<and>
      processed (stats_after (process_batch config_strict sched_one (init_stats 0) [rec1])) =
        processed (init_stats 0) + int (length [rec1]) \<and>
      failed (stats_after (process_batch config_strict sched_one (init_stats 0) [rec1])) =
        failed (init_stats 0))"
proof -
  have 1: "satisfies_rules config_strict rec1" by code_simp
  have 2: "\<not> timed_out config_strict sched_one [rec1]" by code_simp
  have 3: "returned_records (process_batch config_strict sched_one (init_stats 0) [rec1]) = []"
    by code_simp
  show ?thesis using 1 2 3 by simp
qed

text \<open>
  C3, amended: under a configuration whose \<open>min_value\<close> is at most 100, or in whose
  \<open>processing_steps\<close> no \<^verbatim>\<open>validate\<close> comes after a \<^verbatim>\<open>normalize\<close> (the default
  configuration has both), every batch of \<open>N\<close> records that satisfy the validation
  rules, finished before the timeout, gives \<open>N\<close> returned records, \<open>N\<close> more in
  \<^verbatim>\<open>processed\<close> and none more in \<^verbatim>\<open>failed\<close>.
\<close>

theorem process_batch_all_valid:
  assumes valid: "\<forall>r\<in>set records. satisfies_rules cfg r"
    and fin_all: "\<not> timed_out cfg sched records"
    and order: "min_value (validation_rules cfg) \<le> 100 \<or>
                no_validate_after_normalize (processing_steps cfg)"
  shows "length (returned_records (process_batch cfg sched st records)) = length records \<and>
    processed (stats_after (process_batch cfg sched st records)) =
      processed st + int (length records) \<and>
    failed (stats_after (process_batch cfg sched st records)) = failed st"
proof -
  define ts where "ts = gathered cfg sched records"
  have len: "length ts = length records" by (simp add: ts_def length_gathered)
  have "list_all (safe_task cfg) (map Created records)"
    using valid order by (auto simp: list_all_iff safe_state_def)
  then have "list_all (safe_task cfg) ts"
    unfolding ts_def gathered_def by (intro run_sched_invariant safe_step_task)
  then have nr: "\<forall>t\<in>set ts. \<not> is_raised t" by (auto simp: list_all_iff safe_not_raised)
  then have f1: "filter is_raised ts = []" and f2: "filter (\<lambda>t. \<not> is_raised t) ts = ts"
    by (simp_all add: filter_empty_conv)
  show ?thesis
    using process_batch_gathered [OF fin_all, of st] f1 f2 len
    by (simp add: ts_def returned_records_def stats_after_def)
qed

theorem process_batch_all_valid_witness:
  "satisfies_rules default_config rec1 \<and> satisfies_rules default_config rec2 \<and>
   satisfies_rules default_config rec3 \<and>
   \<not> timed_out default_config sched_rounds [rec1, rec2, rec3] \<and>
   length (returned_records
     (process_batch default_config sched_rounds (init_stats 0) [rec1, rec2, rec3])) = 3 \<and>
   processed (stats_after
     (process_batch default_config sched_rounds (init_stats 0) [rec1, rec2, rec3])) = 3 \<and>
   failed (stats_after
     (process_batch default_config sched_rounds (init_stats 0) [rec1, rec2, rec3])) = 0"
proof -
  have v: "\<forall>r\<in>set [rec1, rec2, rec3]. satisfies_rules default_config r" by code_simp
  have f: "\<not> timed_out default_config sched_rounds [rec1, rec2, rec3]" by code_simp
  have o: "min_value (validation_rules default_config) \<le> 100 \<or>
      no_validate_after_normalize (processing_steps default_config)"
    by (simp add: default_config_def)
  note c = process_batch_all_valid [OF v f o, of "init_stats 0"]
  show ?thesis using v f c by (simp add: init_stats_def)
qed

lemma forget_run_loop:
  "forget_unknown (run_loop rest r) = run_loop (filter is_step rest) r"
  by (induction rest) auto

lemma processor_known_steps_only:
  "map_of processors s = Some p \<Longrightarrow> p (known_steps_only cfg) now r = p cfg now r"
  by (auto simp: processors_lookup known_steps_only_def validate_record_def
      split: if_splits)

lemma forget_step_task:
  "forget_unknown (step_task cfg now t) = step_task (known_steps_only cfg) now (forget_unknown t)"
proof (cases t)
  case (Created r)
  then show ?thesis by (simp add: forget_run_loop known_steps_only_def)
next
  case (Sleeping step_name rest r)
  show ?thesis
  proof (cases "map_of processors step_name")
    case None
    then show ?thesis using Sleeping by (simp add: forget_run_loop)
  next
    case (Some p)
    then show ?thesis
      using Sleeping processor_known_steps_only [OF Some, of cfg now r]
      by (simp add: forget_run_loop split: sum.splits)
  qed
next
  case (Returned r)
  then show ?thesis by simp
next
  case (Raised ex r)
  then show ?thesis by simp
qed

lemma forget_run_sched:
  "map forget_unknown (run_sched cfg sched tasks) =
   run_sched (known_steps_only cfg) sched (map forget_unknown tasks)"
proof (induction sched arbitrary: tasks)
  case Nil
  then show ?case by simp
next
  case (Cons a sched)
  obtain i now where a: "a = (i, now)" by (cases a)
  show ?case
    using Cons.IH [of "if i < length tasks then tasks[i := step_task cfg now (tasks ! i)] else tasks"]
    by (simp add: a map_update forget_step_task)
qed

lemma forget_gathered:
  "gathered (known_steps_only cfg) sched records =
   map forget_unknown (gathered cfg sched records)"
  by (simp add: gathered_def forget_run_sched comp_def)

lemma forget_observations:
  "finished (forget_unknown t) = finished t"
  "is_raised (forget_unknown t) = is_raised t"
  "task_record (forget_unknown t) = task_record t"
  by (cases t; simp)+

lemma handle_results_forget:
  "handle_results (map forget_unknown results) acc st records =
   handle_results results acc st records"
proof (induction results arbitrary: acc st records)
  case Nil
  then show ?case by simp
next
  case (Cons t results)
  show ?case by (cases t) (simp_all add: Cons.IH)
qed

text \<open>
  C9. A step name outside the registry \<open>{validate, normalize, categorize, enrich}\<close> is
  skipped: the loop goes on to the next name with the record as it is, nothing runs and
  nothing is raised. So \<^verbatim>\<open>process_batch\<close> does the same, under every schedule, as
  with the configuration whose \<open>processing_steps\<close> has these names taken out: the same
  returned records, the same counters, the same records after the call.
\<close>

theorem unknown_steps_skipped:
  "(step_name \<notin> {''validate'', ''normalize'', ''categorize'', ''enrich''} \<longrightarrow>
      run_loop (step_name # rest) record = run_loop rest record) \<and>
   process_batch cfg sched st records =
     process_batch
       (cfg\<lparr>processing_steps :=
          filter (\<lambda>s. s \<in> {''validate'', ''normalize'', ''categorize'', ''enrich''})
            (processing_steps cfg)\<rparr>) sched st records"
proof -
  have f: "(\<lambda>s. s \<in> {''validate'', ''normalize'', ''categorize'', ''enrich''}) = is_step"
    by (rule ext) (simp only: is_step_iff)
  have a: "step_name \<notin> {''validate'', ''normalize'', ''categorize'', ''enrich''} \<longrightarrow>
      run_loop (step_name # rest) record = run_loop rest record"
    by (simp add: is_step_iff)
  have "process_batch (known_steps_only cfg) sched st records =
      process_batch cfg sched st records"
    by (simp add: process_batch_def Let_def forget_gathered handle_results_forget
        list_all_iff forget_observations)
  then have b: "process_batch cfg sched st records =
      process_batch (cfg\<lparr>processing_steps := filter is_step (processing_steps cfg)\<rparr>)
        sched st records"
    by (simp add: known_steps_only_def)
  show ?thesis unfolding f using a b by (rule conjI)
qed

theorem unknown_steps_skipped_witness:
  "process_batch config_typo sched_all (init_stats 0) [rec1, rec_too_large, rec2] =
   process_batch (config_typo\<lparr>processing_steps := [''validate'', ''categorize'', ''enrich'']\<rparr>)
     sched_all (init_stats 0) [rec1, rec_too_large, rec2] \<and>
   run_loop (''normalise'' # [''categorize'']) rec1 = run_loop [''categorize''] rec1"
  using unknown_steps_skipped [of "''normalise''" "[''categorize'']" rec1 config_typo sched_all
      "init_stats 0" "[rec1, rec_too_large, rec2]"]
  by (simp add: config_typo_def default_config_def)

subsection \<open>Every batch can finish\<close>

text \<open>
  A task ends after at most one run more than there are step names, so the tasks of a
  batch are all done after that many rounds: for every batch there is a schedule under
  which the timeout does not strike.
\<close>

lemma finished_runs_left: "finished t \<longleftrightarrow> runs_left cfg t = 0"
  by (cases t) auto

lemma runs_left_run_loop: "runs_left cfg (run_loop rest r) \<le> length rest"
  by (induction rest) auto

lemma runs_left_step_task: "runs_left cfg (step_task cfg now t) \<le> runs_left cfg t - 1"
  by (cases t) (auto simp: runs_left_run_loop split: option.splits sum.splits)

lemma runs_left_funpow:
  "runs_left cfg ((step_task cfg now ^^ n) t) \<le> runs_left cfg t - n"
proof (induction n)
  case 0
  then show ?case by simp
next
  case (Suc n)
  have "runs_left cfg ((step_task cfg now ^^ Suc n) t)
      \<le> runs_left cfg ((step_task cfg now ^^ n) t) - 1"
    using runs_left_step_task [of cfg now "(step_task cfg now ^^ n) t"] by simp
  then show ?case using Suc by simp
qed

lemma run_sched_append:
  "run_sched cfg (a @ b) tasks = run_sched cfg b (run_sched cfg a tasks)"
  by (induction a arbitrary: tasks) auto

lemma run_sched_prefix:
  "m \<le> length tasks \<Longrightarrow>
   run_sched cfg (map (\<lambda>i. (i, now)) [0..<m]) tasks =
     map (step_task cfg now) (take m tasks) @ drop m tasks"
proof (induction m)
  case 0
  then show ?case by simp
next
  case (Suc m)
  then have m: "m < length tasks" by simp
  let ?ts = "map (step_task cfg now) (take m tasks) @ drop m tasks"
  have len: "length (map (step_task cfg now) (take m tasks)) = m" using m by simp
  have nth: "?ts ! m = tasks ! m"
    using m len by (simp add: nth_append)
  have upd: "?ts[m := x] = map (step_task cfg now) (take m tasks) @ x # drop (Suc m) tasks" for x
    using m len by (simp add: list_update_append Cons_nth_drop_Suc [symmetric])
  have "run_sched cfg (map (\<lambda>i. (i, now)) [0..<Suc m]) tasks =
      run_sched cfg [(m, now)] ?ts"
    using Suc by (simp add: run_sched_append)
  also have "\<dots> = ?ts[m := step_task cfg now (?ts ! m)]" using m by simp
  also have "\<dots> = map (step_task cfg now) (take m tasks) @
      step_task cfg now (tasks ! m) # drop (Suc m) tasks"
    unfolding nth by (rule upd)
  also have "\<dots> = map (step_task cfg now) (take (Suc m) tasks) @ drop (Suc m) tasks"
    using m by (simp add: take_Suc_conv_app_nth)
  finally show ?case .
qed

lemma run_sched_round_robin:
  "run_sched cfg (round_robin (length tasks) now) tasks = map (step_task cfg now) tasks"
  by (simp add: round_robin_def run_sched_prefix)

lemma run_sched_rounds:
  "run_sched cfg (rounds k (length tasks) now) tasks = map (step_task cfg now ^^ k) tasks"
proof (induction k arbitrary: tasks)
  case 0
  then show ?case by (simp add: rounds_def)
next
  case (Suc k)
  have "run_sched cfg (rounds (Suc k) (length tasks) now) tasks =
      run_sched cfg (rounds k (length tasks) now) (map (step_task cfg now) tasks)"
    by (simp add: rounds_def run_sched_append run_sched_round_robin)
  also have "\<dots> = map (step_task cfg now ^^ k) (map (step_task cfg now) tasks)"
    using Suc [of "map (step_task cfg now) tasks"] by simp
  finally show ?case by (simp add: funpow_swap1 comp_def)
qed

lemma batch_finishes:
  "\<not> timed_out cfg (rounds (Suc (length (processing_steps cfg))) (length records) now) records"
proof -
  let ?k = "Suc (length (processing_steps cfg))"
  have g: "gathered cfg (rounds ?k (length records) now) records =
      map (step_task cfg now ^^ ?k) (map Created records)"
    using run_sched_rounds [where tasks = "map Created records" and k = ?k and cfg = cfg and now = now]
    by (simp add: gathered_def)
  have "finished ((step_task cfg now ^^ ?k) (Created r))" for r
    using runs_left_funpow [where cfg = cfg and now = now and n = ?k and t = "Created r"]
    by (simp only: finished_runs_left [of _ cfg]) simp
  then show ?thesis
    unfolding timed_out_def g by (simp add: list_all_iff)
qed

end
